theory Spec2Isabelle
  imports Main "HOL-Library.While_Combinator"
begin

section \<open>Data model\<close>

text \<open>A \<^verbatim>\<open>grid_cell\<close> is the pair of its \<^verbatim>\<open>x\<close> and \<^verbatim>\<open>y\<close> coordinates. Coordinates, labels,
  distances and mask values are C++ \<^verbatim>\<open>int\<close>s; they are modelled by \<open>int\<close> without
  wrap-around: the largest values computed are the layer counter, which grows by one for
  each breadth-first layer of a flat, and the mask, which is at most three times the
  counter. The elevation type \<^verbatim>\<open>T\<close> and the
  flow-direction type \<^verbatim>\<open>U\<close> of the templates are type variables, and the constant
  \<^verbatim>\<open>NO_FLOW\<close> (utility.h) is a parameter of the functions that use it.\<close>

type_synonym grid_cell = "int \<times> int"

text \<open>Modelled from the spec: the container \<^verbatim>\<open>array2d\<close> (data_structures.h) is a dense
  \<^verbatim>\<open>width\<close> by \<^verbatim>\<open>height\<close> array with a public \<^verbatim>\<open>no_data\<close> member; \<^verbatim>\<open>a(x,y)\<close> is
  \<open>cells a (x, y)\<close>.\<close>

record 'a array2d =
  width :: int
  height :: int
  cells :: "grid_cell \<Rightarrow> 'a"
  no_data :: 'a

text \<open>What a run can do besides returning: index an \<^verbatim>\<open>array2d\<close> outside its extent, index
  the vector \<^verbatim>\<open>flat_height\<close> outside its length, take the front of an empty queue, or
  divide by zero. C++ leaves each of them undefined; the model stops with the error.\<close>

datatype error = OutOfRange | BadIndex | EmptyQueue | DivisionByZero

definition ebind :: "error + 'a \<Rightarrow> ('a \<Rightarrow> error + 'b) \<Rightarrow> error + 'b" where
  "ebind m f = (case m of Inl e \<Rightarrow> Inl e | Inr v \<Rightarrow> f v)"

text \<open>Modelled from the spec: the macro \<^verbatim>\<open>IN_GRID\<close> (utility.h), "lies within the grid".\<close>

definition IN_GRID :: "int \<Rightarrow> int \<Rightarrow> int \<Rightarrow> int \<Rightarrow> bool" where
  "IN_GRID x y x_max y_max = (0 \<le> x \<and> 0 \<le> y \<and> x < x_max \<and> y < y_max)"

text \<open>Modelled from the spec: the offset tables \<^verbatim>\<open>dx\<close>, \<^verbatim>\<open>dy\<close> (utility.h) of the D8
  neighbour model, the eight cardinal and diagonal neighbours, indexed 1 to 8.\<close>

definition dx :: "nat \<Rightarrow> int" where
  "dx n = [0, -1, -1, 0, 1, 1, 1, 0, -1] ! n"

definition dy :: "nat \<Rightarrow> int" where
  "dy n = [0, 0, -1, -1, -1, 0, 1, 1, 1] ! n"

text \<open>The range of \<^verbatim>\<open>for(int n=1;n<=8;n++)\<close>.\<close>

definition directions :: "nat list" where
  "directions = [1, 2, 3, 4, 5, 6, 7, 8]"

text \<open>Modelled from the spec: \<^verbatim>\<open>operator()\<close> of \<^verbatim>\<open>array2d\<close> (data_structures.h) gives the
  cell at \<open>(x, y)\<close> when \<open>(x, y)\<close> lies in the extent of the grid. A read that a loop bound or
  an \<^verbatim>\<open>IN_GRID\<close> test on the same grid guards is written \<open>cells a (x, y)\<close>; any other read
  is \<open>rd\<close> and any other write \<open>wr\<close>, which fail outside the extent.\<close>

definition in_range :: "'a array2d \<Rightarrow> int \<Rightarrow> int \<Rightarrow> bool" where
  "in_range a x y = IN_GRID x y (width a) (height a)"

definition rd :: "'a array2d \<Rightarrow> int \<Rightarrow> int \<Rightarrow> error + 'a" where
  "rd a x y = (if in_range a x y then Inr (cells a (x, y)) else Inl OutOfRange)"

definition upd :: "'a array2d \<Rightarrow> int \<Rightarrow> int \<Rightarrow> 'a \<Rightarrow> 'a array2d" where
  "upd a x y v = a\<lparr>cells := (cells a)((x, y) := v)\<rparr>"

definition wr :: "'a array2d \<Rightarrow> int \<Rightarrow> int \<Rightarrow> 'a \<Rightarrow> error + 'a array2d" where
  "wr a x y v = (if in_range a x y then Inr (upd a x y v) else Inl OutOfRange)"

section \<open>find\_flat\_edges\<close>

text \<open>What one pass of the body of the loop over \<^verbatim>\<open>n\<close> decides for the cell \<open>(x, y)\<close>:
  push it on \<^verbatim>\<open>low_edges\<close> and break, push it on \<^verbatim>\<open>high_edges\<close> and break, or go on.\<close>

datatype edge_kind = LowEdge | HighEdge | NoEdge

definition edge_test ::
  "'u \<Rightarrow> 'u array2d \<Rightarrow> ('e::ord) array2d \<Rightarrow> int \<Rightarrow> int \<Rightarrow> nat \<Rightarrow> error + edge_kind" where
  "edge_test NO_FLOW flowdirs elevations x y n =
     (let nx = x + dx n; ny = y + dy n in
      if \<not> IN_GRID nx ny (width flowdirs) (height flowdirs) then Inr NoEdge
      else if cells flowdirs (nx, ny) = no_data flowdirs then Inr NoEdge
      else if cells flowdirs (x, y) \<noteq> NO_FLOW \<and> cells flowdirs (nx, ny) = NO_FLOW then
        ebind (rd elevations nx ny) (\<lambda>en. ebind (rd elevations x y) (\<lambda>e.
          if en = e then Inr LowEdge else Inr NoEdge))
      else if cells flowdirs (x, y) = NO_FLOW then
        ebind (rd elevations x y) (\<lambda>e. ebind (rd elevations nx ny) (\<lambda>en.
          if e < en then Inr HighEdge else Inr NoEdge))
      else Inr NoEdge)"

fun scan_neighbours ::
  "'u \<Rightarrow> 'u array2d \<Rightarrow> ('e::ord) array2d \<Rightarrow> int \<Rightarrow> int \<Rightarrow> nat list \<Rightarrow>
   grid_cell list \<times> grid_cell list \<Rightarrow> error + (grid_cell list \<times> grid_cell list)" where
  "scan_neighbours NO_FLOW flowdirs elevations x y [] (low_edges, high_edges) =
     Inr (low_edges, high_edges)"
| "scan_neighbours NO_FLOW flowdirs elevations x y (n # ns) (low_edges, high_edges) =
     (case edge_test NO_FLOW flowdirs elevations x y n of
        Inl e \<Rightarrow> Inl e
      | Inr LowEdge \<Rightarrow> Inr (low_edges @ [(x, y)], high_edges)
      | Inr HighEdge \<Rightarrow> Inr (low_edges, high_edges @ [(x, y)])
      | Inr NoEdge \<Rightarrow> scan_neighbours NO_FLOW flowdirs elevations x y ns (low_edges, high_edges))"

fun scan_cells ::
  "'u \<Rightarrow> 'u array2d \<Rightarrow> ('e::ord) array2d \<Rightarrow> grid_cell list \<Rightarrow>
   grid_cell list \<times> grid_cell list \<Rightarrow> error + (grid_cell list \<times> grid_cell list)" where
  "scan_cells NO_FLOW flowdirs elevations [] q = Inr q"
| "scan_cells NO_FLOW flowdirs elevations ((x, y) # cs) q =
     (if cells flowdirs (x, y) = no_data flowdirs
      then scan_cells NO_FLOW flowdirs elevations cs q
      else case scan_neighbours NO_FLOW flowdirs elevations x y directions q of
             Inl e \<Rightarrow> Inl e
           | Inr q' \<Rightarrow> scan_cells NO_FLOW flowdirs elevations cs q')"

text \<open>\<^verbatim>\<open>x\<close> runs over the columns in the outer loop and \<^verbatim>\<open>y\<close> over the rows in the inner
  one; the two queues are reference parameters and are returned. Each pass of the outer loop
  starts by computing the argument of \<^verbatim>\<open>progress_bar\<close>, a quotient by
  \<^verbatim>\<open>flowdirs.width()*flowdirs.height()\<close>: on a grid with columns and no rows the first pass
  divides by zero. The progress bar itself and the diagnostics are left out.\<close>

definition find_flat_edges ::
  "'u \<Rightarrow> grid_cell list \<Rightarrow> grid_cell list \<Rightarrow> 'u array2d \<Rightarrow> ('e::ord) array2d \<Rightarrow>
   error + (grid_cell list \<times> grid_cell list)" where
  "find_flat_edges NO_FLOW low_edges high_edges flowdirs elevations =
     (if 0 < width flowdirs \<and> width flowdirs * height flowdirs = 0 then Inl DivisionByZero
      else scan_cells NO_FLOW flowdirs elevations
             (List.product [0 .. width flowdirs - 1] [0 .. height flowdirs - 1])
             (low_edges, high_edges))"

section \<open>Loops that may fail or run forever\<close>

text \<open>A \<^verbatim>\<open>while\<close> loop with test \<open>b\<close> whose body \<open>c\<close> may stop with an error. The result
  is \<open>None\<close> when the loop runs forever, \<open>Some (Inl e)\<close> when a pass of the body fails and
  \<open>Some (Inr s)\<close> when the test fails in state \<open>s\<close>.\<close>

definition while_loop :: "('s \<Rightarrow> bool) \<Rightarrow> ('s \<Rightarrow> error + 's) \<Rightarrow> 's \<Rightarrow> (error + 's) option" where
  "while_loop b c s =
     while_option (\<lambda>r. case r of Inl e \<Rightarrow> False | Inr t \<Rightarrow> b t)
                  (\<lambda>r. case r of Inl e \<Rightarrow> Inl e | Inr t \<Rightarrow> c t) (Inr s)"

text \<open>Sequencing of calls that may fail or run forever.\<close>

definition seq :: "(error + 'a) option \<Rightarrow> ('a \<Rightarrow> (error + 'b) option) \<Rightarrow> (error + 'b) option" where
  "seq m f = (case m of None \<Rightarrow> None | Some (Inl e) \<Rightarrow> Some (Inl e) | Some (Inr v) \<Rightarrow> f v)"

text \<open>The loop \<^verbatim>\<open>for(int n=1;n<=8;n++) if(test) edges.push_back(grid_cell(x+dx[n],y+dy[n]))\<close>,
  which \<^verbatim>\<open>BuildGradient\<close> and \<^verbatim>\<open>CombineGradients\<close> run with different tests.\<close>

fun push_neighbours ::
  "(nat \<Rightarrow> error + bool) \<Rightarrow> int \<Rightarrow> int \<Rightarrow> nat list \<Rightarrow> grid_cell list \<Rightarrow> error + grid_cell list" where
  "push_neighbours test x y [] edges = Inr edges"
| "push_neighbours test x y (n # ns) edges =
     (case test n of
        Inl e \<Rightarrow> Inl e
      | Inr True \<Rightarrow> push_neighbours test x y ns (edges @ [(x + dx n, y + dy n)])
      | Inr False \<Rightarrow> push_neighbours test x y ns edges)"

text \<open>\<^verbatim>\<open>std::vector<int>\<close> indexed by an \<^verbatim>\<open>int\<close>.\<close>

definition vec_get :: "int list \<Rightarrow> int \<Rightarrow> error + int" where
  "vec_get v i = (if 0 \<le> i \<and> i < int (length v) then Inr (v ! nat i) else Inl BadIndex)"

definition vec_set :: "int list \<Rightarrow> int \<Rightarrow> int \<Rightarrow> error + int list" where
  "vec_set v i a = (if 0 \<le> i \<and> i < int (length v) then Inr (v[nat i := a]) else Inl BadIndex)"

section \<open>BuildGradient\<close>

definition iteration_marker :: grid_cell where
  "iteration_marker = (-1, -1)"

text \<open>The test of the neighbour loop: in the grid, of the elevation of \<open>(x, y)\<close>, and flat.\<close>

definition gradient_test ::
  "'u \<Rightarrow> 'e array2d \<Rightarrow> 'u array2d \<Rightarrow> int \<Rightarrow> int \<Rightarrow> nat \<Rightarrow> error + bool" where
  "gradient_test NO_FLOW elevations flowdirs x y n =
     (let nx = x + dx n; ny = y + dy n in
      if IN_GRID nx ny (width elevations) (height elevations) then
        ebind (rd elevations x y) (\<lambda>e.
          if cells elevations (nx, ny) = e
          then ebind (rd flowdirs nx ny) (\<lambda>f. Inr (f = NO_FLOW))
          else Inr False)
      else Inr False)"

text \<open>The state of the loop: \<^verbatim>\<open>edges\<close>, \<^verbatim>\<open>loops\<close>, \<^verbatim>\<open>incrementations\<close>, \<^verbatim>\<open>flat_height\<close>.\<close>

type_synonym bg_state = "grid_cell list \<times> int \<times> int array2d \<times> int list"

fun BuildGradient_body ::
  "'u \<Rightarrow> 'e array2d \<Rightarrow> 'u array2d \<Rightarrow> int array2d \<Rightarrow> bg_state \<Rightarrow> error + bg_state" where
  "BuildGradient_body NO_FLOW elevations flowdirs labels ([], loops, incrementations, flat_height) =
     Inl EmptyQueue"
| "BuildGradient_body NO_FLOW elevations flowdirs labels
     ((x, y) # edges, loops, incrementations, flat_height) =
     (if x = -1 then Inr (edges @ [iteration_marker], loops + 1, incrementations, flat_height)
      else ebind (rd incrementations x y) (\<lambda>v.
        if v > 0 then Inr (edges, loops, incrementations, flat_height)
        else ebind (rd labels x y) (\<lambda>l.
          ebind (vec_set flat_height l loops) (\<lambda>flat_height'.
            ebind (push_neighbours (gradient_test NO_FLOW elevations flowdirs x y) x y
                     directions edges) (\<lambda>edges'.
              Inr (edges', loops, upd incrementations x y loops, flat_height'))))))"

definition BuildGradient_loop ::
  "'u \<Rightarrow> 'e array2d \<Rightarrow> 'u array2d \<Rightarrow> int array2d \<Rightarrow> bg_state \<Rightarrow> (error + bg_state) option" where
  "BuildGradient_loop NO_FLOW elevations flowdirs labels s =
     while_loop (\<lambda>(edges, loops, incrementations, flat_height). length edges \<noteq> 1)
       (BuildGradient_body NO_FLOW elevations flowdirs labels) s"

text \<open>\<^verbatim>\<open>edges\<close> is passed by value; \<^verbatim>\<open>incrementations\<close> and \<^verbatim>\<open>flat_height\<close> are the
  reference parameters the call changes, and are returned.\<close>

definition BuildGradient ::
  "'u \<Rightarrow> 'e array2d \<Rightarrow> 'u array2d \<Rightarrow> int array2d \<Rightarrow> grid_cell list \<Rightarrow> int list \<Rightarrow>
   int array2d \<Rightarrow> (error + int array2d \<times> int list) option" where
  "BuildGradient NO_FLOW elevations flowdirs incrementations edges flat_height labels =
     seq (BuildGradient_loop NO_FLOW elevations flowdirs labels
            (edges @ [iteration_marker], 1, incrementations, flat_height))
       (\<lambda>(edges', loops, incrementations', flat_height').
          Some (Inr (incrementations', flat_height')))"

section \<open>CombineGradients\<close>

definition combine_test :: "'e array2d \<Rightarrow> int \<Rightarrow> int \<Rightarrow> nat \<Rightarrow> error + bool" where
  "combine_test elevations x y n =
     (let nx = x + dx n; ny = y + dy n in
      if IN_GRID nx ny (width elevations) (height elevations)
      then ebind (rd elevations x y) (\<lambda>e. Inr (cells elevations (nx, ny) = e))
      else Inr False)"

text \<open>The state of the loop: \<^verbatim>\<open>edge\<close>, \<^verbatim>\<open>towards\<close>, \<^verbatim>\<open>flat_resolution_mask\<close>.\<close>

type_synonym cg_state = "grid_cell list \<times> int array2d \<times> int array2d"

fun CombineGradients_body ::
  "'e array2d \<Rightarrow> int array2d \<Rightarrow> int list \<Rightarrow> int array2d \<Rightarrow> cg_state \<Rightarrow> error + cg_state" where
  "CombineGradients_body elevations away flat_height labels ([], towards, flat_resolution_mask) =
     Inl EmptyQueue"
| "CombineGradients_body elevations away flat_height labels
     ((x, y) # edge, towards, flat_resolution_mask) =
     ebind (rd towards x y) (\<lambda>t.
       if t = -1 then Inr (edge, towards, flat_resolution_mask)
       else
         ebind (push_neighbours (combine_test elevations x y) x y directions edge) (\<lambda>edge'.
         ebind (if t > 0 then
                  ebind (wr flat_resolution_mask x y (2 * (t - 1))) (\<lambda>mask'.
                  ebind (rd away x y) (\<lambda>a.
                    if a > 0 then
                      ebind (rd labels x y) (\<lambda>l.
                      ebind (vec_get flat_height l) (\<lambda>h.
                        Inr (upd mask' x y (cells mask' (x, y) + (h - a + 1)))))
                    else Inr mask'))
                else Inr flat_resolution_mask) (\<lambda>mask''.
           Inr (edge', upd towards x y (-1), mask''))))"

definition CombineGradients_loop ::
  "'e array2d \<Rightarrow> int array2d \<Rightarrow> int list \<Rightarrow> int array2d \<Rightarrow> cg_state \<Rightarrow> (error + cg_state) option" where
  "CombineGradients_loop elevations away flat_height labels s =
     while_loop (\<lambda>(edge, towards, flat_resolution_mask). length edge \<noteq> 0)
       (CombineGradients_body elevations away flat_height labels) s"

text \<open>\<^verbatim>\<open>towards\<close>, \<^verbatim>\<open>flat_resolution_mask\<close> and \<^verbatim>\<open>edge\<close> are the reference parameters the
  call changes; they are returned in this order.\<close>

definition CombineGradients ::
  "'e array2d \<Rightarrow> int array2d \<Rightarrow> int array2d \<Rightarrow> int array2d \<Rightarrow> grid_cell list \<Rightarrow> int list \<Rightarrow>
   int array2d \<Rightarrow> (error + int array2d \<times> int array2d \<times> grid_cell list) option" where
  "CombineGradients elevations towards away flat_resolution_mask edge flat_height labels =
     seq (CombineGradients_loop elevations away flat_height labels
            (edge, towards, flat_resolution_mask))
       (\<lambda>(edge', towards', mask'). Some (Inr (towards', mask', edge')))"

section \<open>label\_this\<close>

text \<open>The cells that \<^verbatim>\<open>for(int n=1;n<=8;n++) if(IN_GRID(x+dx[n],y+dy[n],w,h)) to_fill.push(...)\<close>
  pushes, in order.\<close>

definition neighbours_in :: "int \<Rightarrow> int \<Rightarrow> int \<Rightarrow> int \<Rightarrow> grid_cell list" where
  "neighbours_in x y w h =
     filter (\<lambda>(nx, ny). IN_GRID nx ny w h) (map (\<lambda>n. (x + dx n, y + dy n)) directions)"

text \<open>The state of the loop: \<^verbatim>\<open>to_fill\<close>, \<^verbatim>\<open>labels\<close>.\<close>

fun label_this_body ::
  "'e \<Rightarrow> int \<Rightarrow> 'e array2d \<Rightarrow> grid_cell list \<times> int array2d \<Rightarrow>
   error + grid_cell list \<times> int array2d" where
  "label_this_body target_elevation label elevations ([], labels) = Inl EmptyQueue"
| "label_this_body target_elevation label elevations ((x, y) # to_fill, labels) =
     ebind (rd elevations x y) (\<lambda>e.
       if e \<noteq> target_elevation then Inr (to_fill, labels)
       else ebind (rd labels x y) (\<lambda>l.
         if l > -1 then Inr (to_fill, labels)
         else Inr (to_fill @ neighbours_in x y (width labels) (height labels),
                   upd labels x y label)))"

definition label_this ::
  "int \<Rightarrow> int \<Rightarrow> int \<Rightarrow> int array2d \<Rightarrow> 'e array2d \<Rightarrow> (error + int array2d) option" where
  "label_this x y label labels elevations =
     seq (Some (rd elevations x y)) (\<lambda>target_elevation.
     seq (while_loop (\<lambda>(to_fill, labels'). length to_fill > 0)
            (label_this_body target_elevation label elevations) ([(x, y)], labels))
       (\<lambda>(to_fill, labels'). Some (Inr labels')))"

section \<open>resolve\_flats\_barnes\<close>

text \<open>Modelled from the spec: \<^verbatim>\<open>resize\<close> followed by \<^verbatim>\<open>init\<close> (data_structures.h) gives the
  grid the new extent with every cell at the initial value.\<close>

definition resize_init :: "'a array2d \<Rightarrow> int \<Rightarrow> int \<Rightarrow> 'a \<Rightarrow> 'a array2d" where
  "resize_init a w h v = a\<lparr>width := w, height := h, cells := (\<lambda>c. v)\<rparr>"

text \<open>Modelled from the spec: \<^verbatim>\<open>int_2d g(elevations,true)\<close> followed by \<^verbatim>\<open>g.init(v)\<close> is a
  grid of the extent of \<^verbatim>\<open>elevations\<close> with every cell at \<open>v\<close>. Its \<^verbatim>\<open>no_data\<close> member is
  never read; 0 stands for it.\<close>

definition int_2d_like :: "'e array2d \<Rightarrow> int \<Rightarrow> int array2d" where
  "int_2d_like elevations v =
     \<lparr>width = width elevations, height = height elevations, cells = (\<lambda>c. v), no_data = 0\<rparr>"

text \<open>The loop over \<^verbatim>\<open>low_edges\<close> that labels the flats; the state is \<^verbatim>\<open>labels\<close> and
  \<^verbatim>\<open>group_number\<close>.\<close>

fun label_flats ::
  "grid_cell list \<Rightarrow> 'e array2d \<Rightarrow> int array2d \<times> int \<Rightarrow> (error + int array2d \<times> int) option" where
  "label_flats [] elevations (labels, group_number) = Some (Inr (labels, group_number))"
| "label_flats ((x, y) # low_edges) elevations (labels, group_number) =
     seq (Some (rd labels x y)) (\<lambda>l.
       if l = -1
       then seq (label_this x y group_number labels elevations) (\<lambda>labels'.
              label_flats low_edges elevations (labels', group_number + 1))
       else label_flats low_edges elevations (labels, group_number))"

text \<open>The loop over \<^verbatim>\<open>high_edges\<close> that keeps in \<^verbatim>\<open>temp\<close> the cells with a label.\<close>

fun keep_labelled :: "int array2d \<Rightarrow> grid_cell list \<Rightarrow> grid_cell list \<Rightarrow> error + grid_cell list" where
  "keep_labelled labels [] temp = Inr temp"
| "keep_labelled labels ((x, y) # high_edges) temp =
     ebind (rd labels x y) (\<lambda>l.
       keep_labelled labels high_edges (if l \<noteq> -1 then temp @ [(x, y)] else temp))"

text \<open>The three diagnostics that depend on the input; the progress messages are left out.\<close>

datatype diagnostic =
    No_Outlets    \<comment> \<open>There were flats, but none of them had outlets!\<close>
  | No_Flats      \<comment> \<open>There were no flats!\<close>
  | Not_All_Outlets  \<comment> \<open>Not all flats have outlets; the DEM contains sinks/pits/depressions!\<close>

text \<open>The local variables at the end of a run that did not return early: \<^verbatim>\<open>towards\<close> is
  recorded as the first \<^verbatim>\<open>BuildGradient\<close> call leaves it, and as \<^verbatim>\<open>CombineGradients\<close>
  leaves it; \<^verbatim>\<open>flat_height\<close> as each of the two \<^verbatim>\<open>BuildGradient\<close> calls leaves it.\<close>

record locals =
  l_group_number :: int
  l_high_edges :: "grid_cell list"
  l_towards :: "int array2d"
  l_flat_height_towards :: "int list"
  l_away :: "int array2d"
  l_flat_height :: "int list"
  l_towards_final :: "int array2d"
  l_edge_final :: "grid_cell list"

text \<open>What a run leaves: the two reference parameters, the diagnostics, the queues of
  \<^verbatim>\<open>find_flat_edges\<close>, and the locals when the run went past the early return.\<close>

record run =
  r_mask :: "int array2d"
  r_labels :: "int array2d"
  r_diagnostics :: "diagnostic list"
  r_low_edges :: "grid_cell list"
  r_high_edges :: "grid_cell list"
  r_locals :: "locals option"

definition resolve_flats_barnes ::
  "'u \<Rightarrow> ('e::ord) array2d \<Rightarrow> 'u array2d \<Rightarrow> int array2d \<Rightarrow> int array2d \<Rightarrow> (error + run) option" where
  "resolve_flats_barnes NO_FLOW elevations flowdirs flat_resolution_mask labels =
     (let labels0 = resize_init labels (width flowdirs) (height flowdirs) (-1);
          mask0 = (resize_init flat_resolution_mask (width flowdirs) (height flowdirs) (-1))
                    \<lparr>no_data := -1\<rparr>
      in
      seq (Some (find_flat_edges NO_FLOW [] [] flowdirs elevations)) (\<lambda>(low_edges, high_edges).
        if length low_edges = 0 then
          Some (Inr \<lparr>r_mask = mask0, r_labels = labels0,
                     r_diagnostics = [if length high_edges > 0 then No_Outlets else No_Flats],
                     r_low_edges = low_edges, r_high_edges = high_edges, r_locals = None\<rparr>)
        else
          seq (label_flats low_edges elevations (labels0, 0)) (\<lambda>(labels1, group_number).
          seq (Some (keep_labelled labels1 high_edges [])) (\<lambda>temp.
          let towards0 = int_2d_like elevations 0;
              away0 = int_2d_like elevations 0;
              flat_height0 = replicate (nat group_number) 0
          in
          seq (BuildGradient NO_FLOW elevations flowdirs towards0 low_edges flat_height0 labels1)
            (\<lambda>(towards1, flat_height1).
          seq (BuildGradient NO_FLOW elevations flowdirs away0 temp flat_height1 labels1)
            (\<lambda>(away1, flat_height2).
          seq (CombineGradients elevations towards1 away1 mask0 low_edges flat_height2 labels1)
            (\<lambda>(towards2, mask1, edge).
            Some (Inr \<lparr>r_mask = mask1, r_labels = labels1,
                       r_diagnostics =
                         (if length temp < length high_edges then [Not_All_Outlets] else []),
                       r_low_edges = low_edges, r_high_edges = high_edges,
                       r_locals = Some \<lparr>l_group_number = group_number, l_high_edges = temp,
                         l_towards = towards1, l_flat_height_towards = flat_height1,
                         l_away = away1, l_flat_height = flat_height2,
                         l_towards_final = towards2, l_edge_final = edge\<rparr>\<rparr>))))))))"

section \<open>Notions the properties are stated with\<close>

text \<open>The eight-neighbour relation of the D8 model.\<close>

definition adjacent :: "grid_cell \<Rightarrow> grid_cell \<Rightarrow> bool" where
  "adjacent c d = (\<bar>fst c - fst d\<bar> \<le> 1 \<and> \<bar>snd c - snd d\<bar> \<le> 1 \<and> c \<noteq> d)"

text \<open>The cell lies in the extent of the grid.\<close>

definition inside :: "'a array2d \<Rightarrow> grid_cell \<Rightarrow> bool" where
  "inside a c = in_range a (fst c) (snd c)"

text \<open>\<open>path_in S a b\<close>: a walk from \<open>a\<close> to \<open>b\<close> through 8-neighbours that stays in \<open>S\<close>.\<close>

inductive path_in :: "grid_cell set \<Rightarrow> grid_cell \<Rightarrow> grid_cell \<Rightarrow> bool" for S where
  start: "a \<in> S \<Longrightarrow> path_in S a a"
| step: "path_in S a b \<Longrightarrow> adjacent b c \<Longrightarrow> c \<in> S \<Longrightarrow> path_in S a c"

code_pred path_in .

text \<open>The cells \<^verbatim>\<open>BuildGradient\<close> can reach from its seeds: a seed, or a flat cell
  (\<^verbatim>\<open>NO_FLOW\<close>) of the grid next to a reached cell of the same elevation.\<close>

inductive flat_reach ::
  "'u \<Rightarrow> 'e array2d \<Rightarrow> 'u array2d \<Rightarrow> grid_cell set \<Rightarrow> grid_cell \<Rightarrow> bool"
  for NO_FLOW elevations flowdirs seeds where
  seed: "c \<in> seeds \<Longrightarrow> flat_reach NO_FLOW elevations flowdirs seeds c"
| step: "flat_reach NO_FLOW elevations flowdirs seeds c \<Longrightarrow> adjacent c d \<Longrightarrow>
         inside elevations d \<Longrightarrow> cells elevations d = cells elevations c \<Longrightarrow>
         cells flowdirs d = NO_FLOW \<Longrightarrow> flat_reach NO_FLOW elevations flowdirs seeds d"

code_pred flat_reach .

text \<open>What puts a cell on \<^verbatim>\<open>low_edges\<close>, and what puts it on \<^verbatim>\<open>high_edges\<close>: some
  pass of the loop over \<^verbatim>\<open>n\<close> takes the first branch, or the second.\<close>

definition low_edge_cell :: "'u \<Rightarrow> 'u array2d \<Rightarrow> ('e::ord) array2d \<Rightarrow> grid_cell \<Rightarrow> bool" where
  "low_edge_cell NO_FLOW flowdirs elevations c =
     (in_range flowdirs (fst c) (snd c) \<and> cells flowdirs c \<noteq> no_data flowdirs \<and>
      (\<exists>n \<in> set directions.
         edge_test NO_FLOW flowdirs elevations (fst c) (snd c) n = Inr LowEdge))"

definition high_edge_cell :: "'u \<Rightarrow> 'u array2d \<Rightarrow> ('e::ord) array2d \<Rightarrow> grid_cell \<Rightarrow> bool" where
  "high_edge_cell NO_FLOW flowdirs elevations c =
     (in_range flowdirs (fst c) (snd c) \<and> cells flowdirs c \<noteq> no_data flowdirs \<and>
      (\<exists>n \<in> set directions.
         edge_test NO_FLOW flowdirs elevations (fst c) (snd c) n = Inr HighEdge))"

text \<open>The value \<^verbatim>\<open>CombineGradients\<close> gives the mask at a cell with \<^verbatim>\<open>towards > 0\<close>.\<close>

definition combined :: "int array2d \<Rightarrow> int array2d \<Rightarrow> int list \<Rightarrow> int array2d \<Rightarrow> grid_cell \<Rightarrow> int" where
  "combined towards away flat_height labels c =
     2 * (cells towards c - 1) +
     (if cells away c > 0 then flat_height ! nat (cells labels c) - cells away c + 1 else 0)"

section \<open>Invariants and measures of the loops\<close>

text \<open>The invariant of the loop of \<^verbatim>\<open>label_this\<close>, started at \<open>seed\<close> on \<open>labels0\<close>.\<close>

definition label_this_inv ::
  "'e \<Rightarrow> int \<Rightarrow> 'e array2d \<Rightarrow> grid_cell \<Rightarrow> int array2d \<Rightarrow> grid_cell list \<times> int array2d \<Rightarrow> bool" where
  "label_this_inv target label elevations seed labels0 s =
     (case s of (to_fill, labels) \<Rightarrow>
        width labels = width labels0 \<and> height labels = height labels0 \<and>
        (\<forall>c \<in> set to_fill. inside labels0 c) \<and>
        (\<forall>c. cells labels c = cells labels0 c \<or>
             cells labels0 c \<le> -1 \<and> cells labels c = label \<and> inside labels0 c \<and>
             cells elevations c = target) \<and>
        (\<forall>c d. cells labels c = label \<longrightarrow> adjacent c d \<longrightarrow> inside labels0 d \<longrightarrow>
             d \<in> set to_fill \<or> cells elevations d \<noteq> target \<or> cells labels d > -1) \<and>
        (seed \<in> set to_fill \<or> cells labels seed > -1) \<and>
        (\<forall>c. cells labels c = label \<longrightarrow> path_in {d. cells labels d = label} seed c) \<and>
        (\<forall>c \<in> set to_fill. c = seed \<or> (\<exists>p. cells labels p = label \<and> adjacent p c)))"

text \<open>The cells of the grid still to label, and the length of the queue: what decreases
  along the loop of \<^verbatim>\<open>label_this\<close>.\<close>

definition label_this_measure :: "(grid_cell list \<times> int array2d) rel" where
  "label_this_measure =
     inv_image (less_than <*lex*> less_than)
       (\<lambda>(to_fill, labels). (card {c. inside labels c \<and> cells labels c \<le> -1}, length to_fill))"

text \<open>What holds of \<^verbatim>\<open>labels\<close> and \<^verbatim>\<open>group_number\<close> between two calls of \<^verbatim>\<open>label_this\<close>:
  the labels in use are those below \<open>group_number\<close>; a labelled cell shares its label with
  every neighbour of its elevation; each label has a seed among the low edges to which all
  its cells are joined, at the seed's elevation.\<close>

definition labelling_inv :: "'e array2d \<Rightarrow> grid_cell set \<Rightarrow> int array2d \<Rightarrow> int \<Rightarrow> bool" where
  "labelling_inv elevations seeds labels group_number =
     ((\<forall>c. cells labels c = -1 \<or>
           0 \<le> cells labels c \<and> cells labels c < group_number \<and> inside labels c) \<and>
      (\<forall>c d. inside labels d \<longrightarrow> adjacent c d \<longrightarrow> cells labels c \<noteq> -1 \<longrightarrow>
           cells elevations d = cells elevations c \<longrightarrow> cells labels d = cells labels c) \<and>
      (\<forall>l. 0 \<le> l \<longrightarrow> l < group_number \<longrightarrow>
           (\<exists>s \<in> seeds. cells labels s = l \<and>
              (\<forall>c. cells labels c = l \<longrightarrow>
                 cells elevations c = cells elevations s \<and>
                 path_in {d. cells labels d = l} s c))))"

text \<open>The queue of \<^verbatim>\<open>BuildGradient\<close> holds one entry that reads as the iteration marker
  (\<^verbatim>\<open>x == -1\<close>): the marker itself.\<close>

definition one_marker :: "grid_cell list \<Rightarrow> bool" where
  "one_marker edges =
     (\<exists>A B. edges = A @ [iteration_marker] @ B \<and>
        (\<forall>c \<in> set A. fst c \<noteq> -1) \<and> (\<forall>c \<in> set B. fst c \<noteq> -1))"

text \<open>What decreases along the loop of \<^verbatim>\<open>BuildGradient\<close>: the cells of the grid without a
  positive incrementation, then the length of the queue, then the length of the queue from
  the marker on.\<close>

definition BuildGradient_measure :: "bg_state rel" where
  "BuildGradient_measure =
     inv_image (less_than <*lex*> less_than <*lex*> less_than)
       (\<lambda>(edges, loops, incrementations, flat_height).
          (card {c. inside incrementations c \<and> cells incrementations c \<le> 0},
           length edges,
           length (dropWhile (\<lambda>c. fst c \<noteq> -1) edges)))"

text \<open>The invariant of the loop of \<^verbatim>\<open>BuildGradient\<close> in a run of \<^verbatim>\<open>resolve_flats_barnes\<close>,
  with the queue split at the marker into the cells \<open>A\<close> of the current layer and the
  cells \<open>B\<close> of the next one: the incrementations lie between 0 and \<^verbatim>\<open>loops\<close>; a cell with
  an incrementation is a labelled cell of the grid, reached from the seeds, and
  \<^verbatim>\<open>flat_height\<close> at its label is at least its incrementation; the cells in the queue are
  labelled cells of the grid reached from the seeds; and a flat neighbour \<open>d\<close> of the elevation
  of a cell \<open>c\<close> with an incrementation either has an incrementation, at most one more than
  that of \<open>c\<close>, or waits in the queue for one.\<close>

definition bg_inv ::
  "'u \<Rightarrow> 'e array2d \<Rightarrow> 'u array2d \<Rightarrow> int array2d \<Rightarrow> int \<Rightarrow> grid_cell set \<Rightarrow>
   grid_cell list \<Rightarrow> grid_cell list \<Rightarrow> int \<Rightarrow> int array2d \<Rightarrow> int list \<Rightarrow> bool" where
  "bg_inv NO_FLOW elevations flowdirs labels g seeds A B loops inc fh =
     (width inc = width elevations \<and> height inc = height elevations \<and>
      1 \<le> loops \<and> length fh = nat g \<and>
      (\<forall>c. 0 \<le> cells inc c \<and> cells inc c \<le> loops) \<and>
      (\<forall>c. 0 < cells inc c \<longrightarrow>
           inside elevations c \<and> cells labels c \<noteq> -1 \<and>
           cells inc c \<le> fh ! nat (cells labels c) \<and>
           flat_reach NO_FLOW elevations flowdirs seeds c) \<and>
      (\<forall>c \<in> set A \<union> set B.
           inside elevations c \<and> cells labels c \<noteq> -1 \<and>
           flat_reach NO_FLOW elevations flowdirs seeds c) \<and>
      (\<forall>c d. 0 < cells inc c \<longrightarrow> adjacent c d \<longrightarrow> inside elevations d \<longrightarrow>
           cells elevations d = cells elevations c \<longrightarrow> cells flowdirs d = NO_FLOW \<longrightarrow>
           0 < cells inc d \<and> cells inc d \<le> cells inc c + 1 \<or>
           loops - 1 \<le> cells inc c \<and> (d \<in> set A \<or> cells inc c = loops \<and> d \<in> set B)))"

definition BuildGradient_inv ::
  "'u \<Rightarrow> 'e array2d \<Rightarrow> 'u array2d \<Rightarrow> int array2d \<Rightarrow> int \<Rightarrow> grid_cell set \<Rightarrow> bg_state \<Rightarrow> bool" where
  "BuildGradient_inv NO_FLOW elevations flowdirs labels g seeds s =
     (case s of (edges, loops, inc, fh) \<Rightarrow>
        \<exists>A B. edges = A @ [iteration_marker] @ B \<and>
              bg_inv NO_FLOW elevations flowdirs labels g seeds A B loops inc fh)"

text \<open>What a call of \<^verbatim>\<open>BuildGradient\<close> in a run of \<^verbatim>\<open>resolve_flats_barnes\<close> leaves: the
  invariant, with the queue down to the marker.\<close>

definition gradient_post ::
  "'u \<Rightarrow> 'e array2d \<Rightarrow> 'u array2d \<Rightarrow> int array2d \<Rightarrow> int \<Rightarrow> grid_cell set \<Rightarrow>
   int array2d \<Rightarrow> int list \<Rightarrow> bool" where
  "gradient_post NO_FLOW elevations flowdirs labels g seeds inc fh =
     (\<exists>loops. bg_inv NO_FLOW elevations flowdirs labels g seeds [] [] loops inc fh)"

text \<open>The invariant of the loop of \<^verbatim>\<open>CombineGradients\<close>, started on \<open>towards0\<close> and
  \<open>mask0\<close>: a cell of \<^verbatim>\<open>towards\<close> is as at the start or has been set to -1; the mask has the
  combined value at the cells with \<^verbatim>\<open>towards > 0\<close> at the start that have been set to -1
  since, and is as at the start elsewhere.\<close>

definition cg_inv ::
  "int array2d \<Rightarrow> int array2d \<Rightarrow> int array2d \<Rightarrow> int list \<Rightarrow> int array2d \<Rightarrow> cg_state \<Rightarrow> bool" where
  "cg_inv towards0 mask0 away flat_height labels s =
     (case s of (edge, towards, fmask) \<Rightarrow>
        width towards = width towards0 \<and> height towards = height towards0 \<and>
        width fmask = width mask0 \<and> height fmask = height mask0 \<and>
        (\<forall>c. cells towards c = cells towards0 c \<or> cells towards c = -1) \<and>
        (\<forall>c. cells fmask c =
               (if cells towards c = -1 \<and> 0 < cells towards0 c
                then combined towards0 away flat_height labels c else cells mask0 c)))"

text \<open>What decreases along the loop of \<^verbatim>\<open>CombineGradients\<close>: the cells of the grid with
  \<^verbatim>\<open>towards\<close> other than -1, then the length of the queue.\<close>

definition CombineGradients_measure :: "cg_state rel" where
  "CombineGradients_measure =
     inv_image (less_than <*lex*> less_than)
       (\<lambda>(edge, towards, fmask).
          (card {c. inside towards c \<and> cells towards c \<noteq> -1}, length edge))"

text \<open>What a run of \<^verbatim>\<open>resolve_flats_barnes\<close> on grids of the same extent leaves: the queues
  are those of \<^verbatim>\<open>find_flat_edges\<close>; the labels and the mask have the extent of the input;
  every low edge has a label; after an early return no cell has a label or a mask value;
  otherwise the two calls of \<^verbatim>\<open>BuildGradient\<close> and the call of \<^verbatim>\<open>CombineGradients\<close> have
  left what their invariants say.\<close>

definition run_post :: "'u \<Rightarrow> ('e::ord) array2d \<Rightarrow> 'u array2d \<Rightarrow> run \<Rightarrow> bool" where
  "run_post NO_FLOW elevations flowdirs out =
     (find_flat_edges NO_FLOW [] [] flowdirs elevations = Inr (r_low_edges out, r_high_edges out) \<and>
      width (r_labels out) = width flowdirs \<and> height (r_labels out) = height flowdirs \<and>
      width (r_mask out) = width flowdirs \<and> height (r_mask out) = height flowdirs \<and>
      (\<forall>c \<in> set (r_low_edges out). cells (r_labels out) c \<noteq> -1) \<and>
      (case r_locals out of
         None \<Rightarrow>
           r_low_edges out = [] \<and>
           labelling_inv elevations (set (r_low_edges out)) (r_labels out) 0 \<and>
           (\<forall>c. cells (r_mask out) c = -1)
       | Some loc \<Rightarrow>
           0 \<le> l_group_number loc \<and>
           labelling_inv elevations (set (r_low_edges out)) (r_labels out) (l_group_number loc) \<and>
           gradient_post NO_FLOW elevations flowdirs (r_labels out) (l_group_number loc)
             (set (r_low_edges out)) (l_towards loc) (l_flat_height_towards loc) \<and>
           gradient_post NO_FLOW elevations flowdirs (r_labels out) (l_group_number loc)
             (set (l_high_edges loc)) (l_away loc) (l_flat_height loc) \<and>
           set (l_high_edges loc) \<subseteq> set (r_high_edges out) \<and>
           (\<forall>c. cells (r_mask out) c =
                  (if cells (l_towards_final loc) c = -1 \<and> 0 < cells (l_towards loc) c
                   then combined (l_towards loc) (l_away loc) (l_flat_height loc) (r_labels out) c
                   else -1))))"

section \<open>Example inputs\<close>

text \<open>The single row of the spec: elevations 5, 5, 5; the first cell has a flow direction
  (1), the other two have none (\<^verbatim>\<open>NO_FLOW\<close> is -1 here, and no cell is no-data).\<close>

definition row_elevations :: "int array2d" where
  "row_elevations = \<lparr>width = 3, height = 1, cells = (\<lambda>c. 5), no_data = -9999\<rparr>"

definition row_flowdirs :: "int array2d" where
  "row_flowdirs =
     \<lparr>width = 3, height = 1, cells = (\<lambda>c. if c = (0, 0) then 1 else -1), no_data = -100\<rparr>"

text \<open>An empty grid, for the two reference parameters that the run resizes.\<close>

definition empty_grid :: "int array2d" where
  "empty_grid = \<lparr>width = 0, height = 0, cells = (\<lambda>c. 0), no_data = 0\<rparr>"

text \<open>What the run leaves on the single row.\<close>

definition row_locals :: locals where
  "row_locals =
     \<lparr>l_group_number = 1,
      l_high_edges = [],
      l_towards = \<lparr>width = 3, height = 1,
                   cells = (\<lambda>c. 0)((0, 0) := 1, (1, 0) := 2, (2, 0) := 3), no_data = 0\<rparr>,
      l_flat_height_towards = [3],
      l_away = \<lparr>width = 3, height = 1, cells = (\<lambda>c. 0), no_data = 0\<rparr>,
      l_flat_height = [3],
      l_towards_final = \<lparr>width = 3, height = 1,
                         cells = (\<lambda>c. 0)((0, 0) := -1, (1, 0) := -1, (2, 0) := -1),
                         no_data = 0\<rparr>,
      l_edge_final = []\<rparr>"

definition row_run :: run where
  "row_run =
     \<lparr>r_mask = \<lparr>width = 3, height = 1,
                 cells = (\<lambda>c. -1)((0, 0) := 0, (1, 0) := 2, (2, 0) := 4), no_data = -1\<rparr>,
      r_labels = \<lparr>width = 3, height = 1,
                   cells = (\<lambda>c. -1)((0, 0) := 0, (1, 0) := 0, (2, 0) := 0), no_data = 0\<rparr>,
      r_diagnostics = [],
      r_low_edges = [(0, 0)],
      r_high_edges = [],
      r_locals = Some row_locals\<rparr>"

text \<open>Two cells of elevations 5 and 6, both flat: a flat without an outlet.\<close>

definition pit_elevations :: "int array2d" where
  "pit_elevations =
     \<lparr>width = 2, height = 1, cells = (\<lambda>c. if c = (0, 0) then 5 else 6), no_data = -9999\<rparr>"

definition pit_flowdirs :: "int array2d" where
  "pit_flowdirs = \<lparr>width = 2, height = 1, cells = (\<lambda>c. -1), no_data = -100\<rparr>"

text \<open>A flow-direction grid of one cell, which has a flow direction: not of the extent of the
  single row of elevations.\<close>

definition cell_flowdirs :: "int array2d" where
  "cell_flowdirs = \<lparr>width = 1, height = 1, cells = (\<lambda>c. 1), no_data = -100\<rparr>"

definition cell_run :: run where
  "cell_run =
     \<lparr>r_mask = \<lparr>width = 1, height = 1, cells = (\<lambda>c. -1), no_data = -1\<rparr>,
      r_labels = \<lparr>width = 1, height = 1, cells = (\<lambda>c. -1), no_data = 0\<rparr>,
      r_diagnostics = [No_Flats],
      r_low_edges = [],
      r_high_edges = [],
      r_locals = None\<rparr>"







section \<open>Basic facts\<close>

lemma ebind_simps [simp]: "ebind (Inl e) f = Inl e" "ebind (Inr v) f = f v"
  by (simp_all add: ebind_def)

lemma ebind_eq_Inr: "ebind m f = Inr r \<longleftrightarrow> (\<exists>v. m = Inr v \<and> f v = Inr r)"
  by (cases m) simp_all

lemma rd_eq_Inr: "rd a x y = Inr v \<longleftrightarrow> in_range a x y \<and> v = cells a (x, y)"
  by (auto simp: rd_def)

lemma rd_in_range [simp]: "in_range a x y \<Longrightarrow> rd a x y = Inr (cells a (x, y))"
  by (simp add: rd_def)

lemma adjacent_iff_direction:
  "adjacent (x, y) d \<longleftrightarrow> (\<exists>n \<in> set directions. d = (x + dx n, y + dy n))"
proof (cases d)
  case (Pair a b)
  show ?thesis
  proof
    assume "adjacent (x, y) d"
    then have "a = x - 1 \<or> a = x \<or> a = x + 1" and "b = y - 1 \<or> b = y \<or> b = y + 1"
      and "\<not> (a = x \<and> b = y)"
      by (auto simp: adjacent_def Pair)
    then show "\<exists>n \<in> set directions. d = (x + dx n, y + dy n)"
      unfolding Pair by (elim disjE) (simp_all add: directions_def dx_def dy_def)
  next
    assume "\<exists>n \<in> set directions. d = (x + dx n, y + dy n)"
    then show "adjacent (x, y) d"
      by (auto simp: directions_def dx_def dy_def adjacent_def)
  qed
qed

lemma adjacent_sym: "adjacent c d \<Longrightarrow> adjacent d c"
  by (auto simp: adjacent_def)

section \<open>Edge finding\<close>

lemma edge_test_LowEdge:
  "edge_test NO_FLOW flowdirs elevations x y n = Inr LowEdge \<longleftrightarrow>
     IN_GRID (x + dx n) (y + dy n) (width flowdirs) (height flowdirs) \<and>
     cells flowdirs (x + dx n, y + dy n) \<noteq> no_data flowdirs \<and>
     cells flowdirs (x, y) \<noteq> NO_FLOW \<and> cells flowdirs (x + dx n, y + dy n) = NO_FLOW \<and>
     in_range elevations (x + dx n) (y + dy n) \<and> in_range elevations x y \<and>
     cells elevations (x + dx n, y + dy n) = cells elevations (x, y)"
  by (auto simp: edge_test_def Let_def ebind_eq_Inr rd_eq_Inr)

lemma edge_test_HighEdge:
  "edge_test NO_FLOW flowdirs elevations x y n = Inr HighEdge \<longleftrightarrow>
     IN_GRID (x + dx n) (y + dy n) (width flowdirs) (height flowdirs) \<and>
     cells flowdirs (x + dx n, y + dy n) \<noteq> no_data flowdirs \<and>
     cells flowdirs (x, y) = NO_FLOW \<and>
     in_range elevations (x + dx n) (y + dy n) \<and> in_range elevations x y \<and>
     cells elevations (x, y) < cells elevations (x + dx n, y + dy n)"
  by (auto simp: edge_test_def Let_def ebind_eq_Inr rd_eq_Inr)

lemma scan_neighbours_result:
  "scan_neighbours NO_FLOW flowdirs elevations x y ns (low, high) = Inr (low', high') \<Longrightarrow>
   (low' = low \<or> low' = low @ [(x, y)] \<and>
      (\<exists>n \<in> set ns. edge_test NO_FLOW flowdirs elevations x y n = Inr LowEdge)) \<and>
   (high' = high \<or> high' = high @ [(x, y)] \<and>
      (\<exists>n \<in> set ns. edge_test NO_FLOW flowdirs elevations x y n = Inr HighEdge))"
  by (induction ns) (auto split: sum.splits edge_kind.splits)

lemma scan_neighbours_no_error:
  "(\<And>n. \<exists>k. edge_test NO_FLOW flowdirs elevations x y n = Inr k) \<Longrightarrow>
   \<exists>q'. scan_neighbours NO_FLOW flowdirs elevations x y ns q = Inr q'"
proof (induction ns)
  case Nil
  show ?case by (cases q) simp
next
  case (Cons n ns)
  obtain k where "edge_test NO_FLOW flowdirs elevations x y n = Inr k"
    using Cons.prems by blast
  then show ?case using Cons.IH [OF Cons.prems] by (cases q; cases k) auto
qed

lemma scan_cells_result:
  "scan_cells NO_FLOW flowdirs elevations cs (low, high) = Inr (low', high') \<Longrightarrow>
   (\<forall>c \<in> set cs. in_range flowdirs (fst c) (snd c)) \<Longrightarrow>
   (\<forall>c \<in> set low'. c \<in> set low \<or> low_edge_cell NO_FLOW flowdirs elevations c) \<and>
   (\<forall>c \<in> set high'. c \<in> set high \<or> high_edge_cell NO_FLOW flowdirs elevations c)"
proof (induction cs arbitrary: low high)
  case Nil
  then show ?case by simp
next
  case (Cons c cs)
  obtain x y where c: "c = (x, y)" by (cases c)
  show ?case
  proof (cases "cells flowdirs (x, y) = no_data flowdirs")
    case True
    then show ?thesis using Cons.IH [of low high] Cons.prems by (simp add: c)
  next
    case False
    then obtain l1 h1 where
      s: "scan_neighbours NO_FLOW flowdirs elevations x y directions (low, high) = Inr (l1, h1)"
      and r: "scan_cells NO_FLOW flowdirs elevations cs (l1, h1) = Inr (low', high')"
      using Cons.prems(1) by (auto simp: c split: sum.splits)
    have range: "in_range flowdirs x y" using Cons.prems(2) by (simp add: c)
    from scan_neighbours_result [OF s] range False
    have "\<forall>d \<in> set l1. d \<in> set low \<or> low_edge_cell NO_FLOW flowdirs elevations d"
      and "\<forall>d \<in> set h1. d \<in> set high \<or> high_edge_cell NO_FLOW flowdirs elevations d"
      by (auto simp: low_edge_cell_def high_edge_cell_def)
    then show ?thesis using Cons.IH [OF r] Cons.prems(2) by auto
  qed
qed

lemma scan_cells_no_error:
  "(\<And>c n. c \<in> set cs \<Longrightarrow> \<exists>k. edge_test NO_FLOW flowdirs elevations (fst c) (snd c) n = Inr k) \<Longrightarrow>
   \<exists>q'. scan_cells NO_FLOW flowdirs elevations cs q = Inr q'"
proof (induction cs arbitrary: q)
  case Nil
  show ?case by simp
next
  case (Cons c cs)
  obtain x y where c: "c = (x, y)" by (cases c)
  have "\<And>n. \<exists>k. edge_test NO_FLOW flowdirs elevations x y n = Inr k"
    using Cons.prems [of c] by (simp add: c)
  from scan_neighbours_no_error [OF this]
  obtain q1 where "scan_neighbours NO_FLOW flowdirs elevations x y directions q = Inr q1"
    by blast
  moreover have "\<exists>q'. scan_cells NO_FLOW flowdirs elevations cs q2 = Inr q'" for q2
    using Cons.IH Cons.prems by simp
  ultimately show ?case by (simp add: c)
qed

lemma set_product_upto:
  "c \<in> set (List.product [0 .. w - 1] [0 .. h - 1]) \<longleftrightarrow> IN_GRID (fst c) (snd c) w h"
  by (cases c) (auto simp: IN_GRID_def)

lemma find_flat_edges_result:
  assumes "find_flat_edges NO_FLOW [] [] flowdirs elevations = Inr (low_edges, high_edges)"
  shows "(\<forall>c \<in> set low_edges. low_edge_cell NO_FLOW flowdirs elevations c) \<and>
         (\<forall>c \<in> set high_edges. high_edge_cell NO_FLOW flowdirs elevations c)"
proof -
  have r: "\<forall>c \<in> set (List.product [0 .. width flowdirs - 1] [0 .. height flowdirs - 1]).
          in_range flowdirs (fst c) (snd c)"
    using set_product_upto by (auto simp: in_range_def)
  have sc: "scan_cells NO_FLOW flowdirs elevations
      (List.product [0 .. width flowdirs - 1] [0 .. height flowdirs - 1]) ([], [])
      = Inr (low_edges, high_edges)"
    using assms by (simp add: find_flat_edges_def split: if_splits)
  from scan_cells_result [OF sc r] show ?thesis by simp
qed

lemma edge_test_no_error:
  "in_range flowdirs x y \<Longrightarrow> width flowdirs \<le> width elevations \<Longrightarrow>
   height flowdirs \<le> height elevations \<Longrightarrow>
   \<exists>k. edge_test NO_FLOW flowdirs elevations x y n = Inr k"
  by (auto simp: edge_test_def Let_def in_range_def IN_GRID_def rd_def)

lemma find_flat_edges_no_error:
  assumes "width flowdirs \<le> width elevations" "height flowdirs \<le> height elevations"
    and "width flowdirs \<le> 0 \<or> height flowdirs \<noteq> 0"
  shows "\<exists>q. find_flat_edges NO_FLOW low high flowdirs elevations = Inr q"
proof -
  have "\<exists>q. scan_cells NO_FLOW flowdirs elevations
              (List.product [0 .. width flowdirs - 1] [0 .. height flowdirs - 1]) (low, high)
            = Inr q"
  proof (rule scan_cells_no_error)
    fix c :: grid_cell and n
    assume "c \<in> set (List.product [0 .. width flowdirs - 1] [0 .. height flowdirs - 1])"
    then have "in_range flowdirs (fst c) (snd c)"
      unfolding set_product_upto in_range_def .
    then show "\<exists>k. edge_test NO_FLOW flowdirs elevations (fst c) (snd c) n = Inr k"
      using assms(1,2) by (rule edge_test_no_error)
  qed
  moreover have "\<not> (0 < width flowdirs \<and> width flowdirs * height flowdirs = 0)"
    using assms(3) by auto
  ultimately show ?thesis by (simp add: find_flat_edges_def)
qed

lemma row_find_flat_edges:
  "find_flat_edges (-1) [] [] row_flowdirs row_elevations = Inr ([(0, 0)], [])"
  by (simp add: find_flat_edges_def row_flowdirs_def row_elevations_def directions_def
      edge_test_def dx_def dy_def IN_GRID_def in_range_def rd_def Let_def upto.simps)

lemma low_edge_cell_iff:
  "low_edge_cell NO_FLOW flowdirs elevations c \<longleftrightarrow>
     in_range flowdirs (fst c) (snd c) \<and> cells flowdirs c \<noteq> no_data flowdirs \<and>
     cells flowdirs c \<noteq> NO_FLOW \<and> in_range elevations (fst c) (snd c) \<and>
     (\<exists>d. adjacent c d \<and> in_range flowdirs (fst d) (snd d) \<and>
          cells flowdirs d \<noteq> no_data flowdirs \<and> cells flowdirs d = NO_FLOW \<and>
          in_range elevations (fst d) (snd d) \<and> cells elevations d = cells elevations c)"
  by (cases c) (auto simp: low_edge_cell_def edge_test_LowEdge adjacent_iff_direction in_range_def)

lemma high_edge_cell_iff:
  "high_edge_cell NO_FLOW flowdirs elevations c \<longleftrightarrow>
     in_range flowdirs (fst c) (snd c) \<and> cells flowdirs c \<noteq> no_data flowdirs \<and>
     cells flowdirs c = NO_FLOW \<and> in_range elevations (fst c) (snd c) \<and>
     (\<exists>d. adjacent c d \<and> in_range flowdirs (fst d) (snd d) \<and>
          cells flowdirs d \<noteq> no_data flowdirs \<and>
          in_range elevations (fst d) (snd d) \<and> cells elevations c < cells elevations d)"
  by (cases c) (auto simp: high_edge_cell_def edge_test_HighEdge adjacent_iff_direction in_range_def)

section \<open>Rules for loops\<close>

lemma seq_simps [simp]:
  "seq None f = None" "seq (Some (Inl e)) f = Some (Inl e)" "seq (Some (Inr v)) f = f v"
  by (simp_all add: seq_def)

lemma while_loop_unfold:
  "while_loop b c s =
     (if b s then (case c s of Inl e \<Rightarrow> Some (Inl e) | Inr t \<Rightarrow> while_loop b c t)
      else Some (Inr s))"
proof (cases "b s")
  case False
  then show ?thesis
    unfolding while_loop_def by (subst while_option_unfold) simp
next
  case True
  show ?thesis
  proof (cases "c s")
    case (Inl e)
    have "while_loop b c s =
            while_option (\<lambda>r. case r of Inl e \<Rightarrow> False | Inr t \<Rightarrow> b t)
              (\<lambda>r. case r of Inl e \<Rightarrow> Inl e | Inr t \<Rightarrow> c t) (Inl e)"
      unfolding while_loop_def using True Inl by (subst while_option_unfold) simp
    also have "\<dots> = Some (Inl e)"
      by (subst while_option_unfold) simp
    finally show ?thesis using True Inl by simp
  next
    case (Inr t)
    then show ?thesis
      unfolding while_loop_def using True by (subst while_option_unfold) simp
  qed
qed



lemma while_loop_total:
  assumes "wf R" and "P s"
    and "\<And>s. P s \<Longrightarrow> b s \<Longrightarrow> \<exists>s'. c s = Inr s' \<and> P s' \<and> (s', s) \<in> R"
  shows "\<exists>t. while_loop b c s = Some (Inr t) \<and> P t \<and> \<not> b t"
  using assms(1,2)
proof (induction s rule: wf_induct_rule)
  case (less s)
  show ?case
  proof (cases "b s")
    case False
    then show ?thesis using less.prems by (subst while_loop_unfold) simp
  next
    case True
    from assms(3) [OF less.prems True] obtain s'
      where s': "c s = Inr s'" "P s'" "(s', s) \<in> R" by blast
    then have "\<exists>t. while_loop b c s' = Some (Inr t) \<and> P t \<and> \<not> b t"
      using less.IH by blast
    then show ?thesis using True s'(1) by (subst while_loop_unfold) simp
  qed
qed


section \<open>Walks and extents\<close>

lemma path_in_mono: "path_in S a b \<Longrightarrow> S \<subseteq> T \<Longrightarrow> path_in T a b"
  by (induction rule: path_in.induct) (auto intro: path_in.intros)

lemma path_in_ends: "path_in S a b \<Longrightarrow> a \<in> S \<and> b \<in> S"
  by (induction rule: path_in.induct) auto

lemma path_in_trans: "path_in S b c \<Longrightarrow> path_in S a b \<Longrightarrow> path_in S a c"
  by (induction rule: path_in.induct) (auto intro: path_in.intros)

lemma path_in_sym: "path_in S a b \<Longrightarrow> path_in S b a"
proof (induction rule: path_in.induct)
  case (start a)
  then show ?case by (rule path_in.start)
next
  case (step a b c)
  have "b \<in> S" using step.hyps(1) path_in_ends by blast
  then have "path_in S c b"
    using step.hyps(2,3) adjacent_sym path_in.start path_in.step by blast
  then show ?case using step.IH path_in_trans by blast
qed

lemma inside_iff: "inside a (x, y) \<longleftrightarrow> in_range a x y"
  by (simp add: inside_def)

lemma finite_inside: "finite {c. inside a c \<and> P c}"
proof -
  have "{c. inside a c \<and> P c} \<subseteq> {0 ..< width a} \<times> {0 ..< height a}"
    by (auto simp: inside_def in_range_def IN_GRID_def)
  then show ?thesis by (rule finite_subset) simp
qed

lemma inside_upd [simp]: "inside (upd a x y v) c = inside a c"
  by (simp add: inside_def in_range_def upd_def)

lemma upd_simps [simp]:
  "width (upd a x y v) = width a" "height (upd a x y v) = height a"
  "cells (upd a x y v) = (cells a)((x, y) := v)" "no_data (upd a x y v) = no_data a"
  by (simp_all add: upd_def)

lemma in_range_upd [simp]: "in_range (upd a x y v) i j = in_range a i j"
  by (simp add: in_range_def)

lemma set_neighbours_in:
  "d \<in> set (neighbours_in x y w h) \<longleftrightarrow> adjacent (x, y) d \<and> IN_GRID (fst d) (snd d) w h"
  by (cases d) (auto simp: neighbours_in_def adjacent_iff_direction)

lemma card_less_remove:
  assumes "finite A" "c \<in> A" "B \<subseteq> A - {c}"
  shows "card B < card A"
proof -
  have "card B \<le> card (A - {c})" using assms by (intro card_mono) auto
  also have "\<dots> < card A" using assms(1,2) by (rule card_Diff1_less)
  finally show ?thesis .
qed

section \<open>The loop of label\_this\<close>

lemma wf_label_this_measure: "wf label_this_measure"
  unfolding label_this_measure_def by (intro wf_inv_image wf_lex_prod wf_less_than)

lemma label_this_invI:
  assumes "width labels = width labels0" "height labels = height labels0"
    and "\<forall>c \<in> set to_fill. inside labels0 c"
    and "\<forall>c. cells labels c = cells labels0 c \<or>
             cells labels0 c \<le> -1 \<and> cells labels c = label \<and> inside labels0 c \<and>
             cells elevations c = target"
    and "\<forall>c d. cells labels c = label \<longrightarrow> adjacent c d \<longrightarrow> inside labels0 d \<longrightarrow>
             d \<in> set to_fill \<or> cells elevations d \<noteq> target \<or> cells labels d > -1"
    and "seed \<in> set to_fill \<or> cells labels seed > -1"
    and "\<forall>c. cells labels c = label \<longrightarrow> path_in {d. cells labels d = label} seed c"
    and "\<forall>c \<in> set to_fill. c = seed \<or> (\<exists>p. cells labels p = label \<and> adjacent p c)"
  shows "label_this_inv target label elevations seed labels0 (to_fill, labels)"
  using assms unfolding label_this_inv_def by simp

lemma label_this_invD:
  assumes "label_this_inv target label elevations seed labels0 (to_fill, labels)"
  shows "width labels = width labels0" "height labels = height labels0"
    and "\<forall>c \<in> set to_fill. inside labels0 c"
    and "\<forall>c. cells labels c = cells labels0 c \<or>
             cells labels0 c \<le> -1 \<and> cells labels c = label \<and> inside labels0 c \<and>
             cells elevations c = target"
    and "\<forall>c d. cells labels c = label \<longrightarrow> adjacent c d \<longrightarrow> inside labels0 d \<longrightarrow>
             d \<in> set to_fill \<or> cells elevations d \<noteq> target \<or> cells labels d > -1"
    and "seed \<in> set to_fill \<or> cells labels seed > -1"
    and "\<forall>c. cells labels c = label \<longrightarrow> path_in {d. cells labels d = label} seed c"
    and "\<forall>c \<in> set to_fill. c = seed \<or> (\<exists>p. cells labels p = label \<and> adjacent p c)"
  using assms unfolding label_this_inv_def by simp_all

lemma label_this_step:
  fixes elevations :: "'e array2d"
  assumes inv: "label_this_inv target label elevations seed labels0 s"
    and b: "case s of (to_fill, labels) \<Rightarrow> length to_fill > 0"
    and dims: "width labels0 = width elevations" "height labels0 = height elevations"
    and target: "target = cells elevations seed"
    and label: "0 \<le> label" "\<forall>c. cells labels0 c \<noteq> label"
  shows "\<exists>s'. label_this_body target label elevations s = Inr s' \<and>
              label_this_inv target label elevations seed labels0 s' \<and>
              (s', s) \<in> label_this_measure"
proof -
  obtain to_fill labels where s: "s = (to_fill, labels)" by (cases s)
  obtain x y rest where q: "to_fill = (x, y) # rest"
    using b s by (cases to_fill) auto
  note i = label_this_invD [OF inv [unfolded s]]
  have in0: "inside labels0 (x, y)" using i(3) q by simp
  have ins: "inside labels d = inside labels0 d" for d
    by (simp add: inside_def in_range_def i(1,2))
  have rd_el: "rd elevations x y = Inr (cells elevations (x, y))"
    using in0 by (simp add: inside_def in_range_def dims rd_def)
  have rd_lab: "rd labels x y = Inr (cells labels (x, y))"
    using in0 by (simp add: inside_def in_range_def i(1,2) rd_def)
  have rest: "\<forall>c \<in> set rest. inside labels0 c" using i(3) q by simp
  have rest8: "\<forall>c \<in> set rest. c = seed \<or> (\<exists>p. cells labels p = label \<and> adjacent p c)"
    using i(8) q by simp
  show ?thesis
  proof (cases "cells elevations (x, y) \<noteq> target \<or> cells labels (x, y) > -1")
    case True
    then have body: "label_this_body target label elevations s = Inr (rest, labels)"
      by (auto simp: s q rd_el rd_lab)
    have i5: "\<forall>c d. cells labels c = label \<longrightarrow> adjacent c d \<longrightarrow> inside labels0 d \<longrightarrow>
             d \<in> set rest \<or> cells elevations d \<noteq> target \<or> cells labels d > -1"
      using i(5) True q by auto
    have i6: "seed \<in> set rest \<or> cells labels seed > -1"
      using i(6) True q target by auto
    have "label_this_inv target label elevations seed labels0 (rest, labels)"
      by (rule label_this_invI [OF i(1) i(2) rest i(4) i5 i6 i(7) rest8])
    moreover have "((rest, labels), s) \<in> label_this_measure"
      by (simp add: label_this_measure_def s q)
    ultimately show ?thesis using body by blast
  next
    case False
    then have el: "cells elevations (x, y) = target" and lab: "cells labels (x, y) \<le> -1"
      by auto
    have "cells labels (x, y) \<noteq> label" using lab label(1) by auto
    then have lab0: "cells labels0 (x, y) \<le> -1" using i(4) lab by metis
    define to_fill' where "to_fill' = rest @ neighbours_in x y (width labels) (height labels)"
    define labels' where "labels' = upd labels x y label"
    have body: "label_this_body target label elevations s = Inr (to_fill', labels')"
      using el lab by (simp add: s q rd_el rd_lab to_fill'_def labels'_def)
    have nb: "d \<in> set (neighbours_in x y (width labels) (height labels)) \<longleftrightarrow>
                adjacent (x, y) d \<and> inside labels0 d" for d
      by (simp add: set_neighbours_in inside_def in_range_def i(1,2))
    have c': "cells labels' c = (if c = (x, y) then label else cells labels c)" for c
      by (simp add: labels'_def)
    have j1: "width labels' = width labels0" "height labels' = height labels0"
      by (simp_all add: labels'_def i(1,2))
    have j3: "\<forall>c \<in> set to_fill'. inside labels0 c"
      using rest nb by (auto simp: to_fill'_def)
    have j4: "\<forall>c. cells labels' c = cells labels0 c \<or>
             cells labels0 c \<le> -1 \<and> cells labels' c = label \<and> inside labels0 c \<and>
             cells elevations c = target"
      using i(4) lab0 in0 el by (auto simp: c')
    have j5: "\<forall>c d. cells labels' c = label \<longrightarrow> adjacent c d \<longrightarrow> inside labels0 d \<longrightarrow>
             d \<in> set to_fill' \<or> cells elevations d \<noteq> target \<or> cells labels' d > -1"
    proof (intro allI impI)
      fix c d assume a: "cells labels' c = label" "adjacent c d" "inside labels0 d"
      show "d \<in> set to_fill' \<or> cells elevations d \<noteq> target \<or> cells labels' d > -1"
      proof (cases "c = (x, y)")
        case True
        then show ?thesis using a nb by (simp add: to_fill'_def)
      next
        case False
        then have "cells labels c = label" using a(1) by (simp add: c')
        then have "d \<in> set to_fill \<or> cells elevations d \<noteq> target \<or> cells labels d > -1"
          using i(5) a(2,3) by blast
        then show ?thesis using label(1) by (auto simp: q to_fill'_def c')
      qed
    qed
    have j6: "seed \<in> set to_fill' \<or> cells labels' seed > -1"
      using i(6) label(1) by (auto simp: q to_fill'_def c')
    have sub: "{d. cells labels d = label} \<subseteq> {d. cells labels' d = label}"
      by (auto simp: c')
    have j7: "\<forall>c. cells labels' c = label \<longrightarrow> path_in {d. cells labels' d = label} seed c"
    proof (intro allI impI)
      fix c assume a: "cells labels' c = label"
      show "path_in {d. cells labels' d = label} seed c"
      proof (cases "c = (x, y)")
        case False
        then have "cells labels c = label" using a by (simp add: c')
        then have "path_in {d. cells labels d = label} seed c" using i(7) by blast
        then show ?thesis using sub by (rule path_in_mono)
      next
        case True
        have "(x, y) = seed \<or> (\<exists>p. cells labels p = label \<and> adjacent p (x, y))"
          using i(8) q by simp
        then show ?thesis
        proof
          assume "(x, y) = seed"
          then show ?thesis using True a by (auto intro: path_in.start)
        next
          assume "\<exists>p. cells labels p = label \<and> adjacent p (x, y)"
          then obtain p where p: "cells labels p = label" "adjacent p (x, y)" by blast
          then have "path_in {d. cells labels d = label} seed p" using i(7) by blast
          then have "path_in {d. cells labels' d = label} seed p" using sub by (rule path_in_mono)
          then show ?thesis using p(2) a True by (auto intro: path_in.step)
        qed
      qed
    qed
    have j8: "\<forall>c \<in> set to_fill'. c = seed \<or> (\<exists>p. cells labels' p = label \<and> adjacent p c)"
    proof
      fix c assume "c \<in> set to_fill'"
      then consider "c \<in> set rest" | "adjacent (x, y) c"
        using nb by (auto simp: to_fill'_def)
      then show "c = seed \<or> (\<exists>p. cells labels' p = label \<and> adjacent p c)"
      proof cases
        case 1
        then have "c = seed \<or> (\<exists>p. cells labels p = label \<and> adjacent p c)" using rest8 by blast
        then show ?thesis using sub by blast
      next
        case 2
        moreover have "cells labels' (x, y) = label" by (simp add: c')
        ultimately show ?thesis by blast
      qed
    qed
    have "label_this_inv target label elevations seed labels0 (to_fill', labels')"
      by (rule label_this_invI [OF j1 j3 j4 j5 j6 j7 j8])
    moreover have "card {c. inside labels' c \<and> cells labels' c \<le> -1}
                     < card {c. inside labels c \<and> cells labels c \<le> -1}"
    proof (rule card_less_remove [where c = "(x, y)"])
      show "finite {c. inside labels c \<and> cells labels c \<le> -1}" by (rule finite_inside)
      show "(x, y) \<in> {c. inside labels c \<and> cells labels c \<le> -1}"
        using in0 lab ins by simp
      show "{c. inside labels' c \<and> cells labels' c \<le> -1}
              \<subseteq> {c. inside labels c \<and> cells labels c \<le> -1} - {(x, y)}"
        using label(1) by (auto simp: c' labels'_def)
    qed
    then have "((to_fill', labels'), s) \<in> label_this_measure"
      by (simp add: label_this_measure_def s)
    ultimately show ?thesis using body by blast
  qed
qed

lemma label_this_total:
  fixes elevations :: "'e array2d"
  assumes dims: "width labels0 = width elevations" "height labels0 = height elevations"
    and seed: "inside labels0 (x, y)"
    and label: "0 \<le> label" "\<forall>c. cells labels0 c \<noteq> label"
  shows "\<exists>labels'. label_this x y label labels0 elevations = Some (Inr labels') \<and>
           label_this_inv (cells elevations (x, y)) label elevations (x, y) labels0 ([], labels')"
proof -
  let ?target = "cells elevations (x, y)"
  let ?P = "label_this_inv ?target label elevations (x, y) labels0"
  have rd_el: "rd elevations x y = Inr ?target"
    using seed by (simp add: inside_def in_range_def dims rd_def)
  have init: "?P ([(x, y)], labels0)"
    by (rule label_this_invI) (use seed label in auto)
  have "\<exists>t. while_loop (\<lambda>(to_fill, labels'). length to_fill > 0)
              (label_this_body ?target label elevations) ([(x, y)], labels0) = Some (Inr t) \<and>
            ?P t \<and> \<not> (case t of (to_fill, labels') \<Rightarrow> length to_fill > 0)"
  proof (rule while_loop_total [where P = ?P and R = label_this_measure])
    show "wf label_this_measure" by (rule wf_label_this_measure)
    show "?P ([(x, y)], labels0)" by (rule init)
    fix s assume "?P s" "case s of (to_fill, labels') \<Rightarrow> length to_fill > 0"
    then show "\<exists>s'. label_this_body ?target label elevations s = Inr s' \<and> ?P s' \<and>
                 (s', s) \<in> label_this_measure"
      by (rule label_this_step [OF _ _ dims refl label])
  qed
  then obtain to_fill labels' where
    "while_loop (\<lambda>(to_fill, labels'). length to_fill > 0)
       (label_this_body ?target label elevations) ([(x, y)], labels0) = Some (Inr (to_fill, labels'))"
    "?P (to_fill, labels')" "to_fill = []"
    by auto
  then show ?thesis by (simp add: label_this_def rd_el)
qed

section \<open>Labelling the flats\<close>

lemma labelling_inv_label_this:
  fixes elevations :: "'e array2d"
  assumes J: "labelling_inv elevations seeds labels g" and g: "0 \<le> g"
    and fin: "label_this_inv (cells elevations seed) g elevations seed labels ([], labels')"
    and seed: "seed \<in> seeds" "cells labels seed = -1"
  shows "labelling_inv elevations seeds labels' (g + 1)"
proof -
  note i = label_this_invD [OF fin]
  from J have j2: "\<And>c. cells labels c = -1 \<or>
           0 \<le> cells labels c \<and> cells labels c < g \<and> inside labels c"
    and j3: "\<And>c d. inside labels d \<Longrightarrow> adjacent c d \<Longrightarrow> cells labels c \<noteq> -1 \<Longrightarrow>
           cells elevations d = cells elevations c \<Longrightarrow> cells labels d = cells labels c"
    and j4: "\<And>l. 0 \<le> l \<Longrightarrow> l < g \<Longrightarrow>
           \<exists>s \<in> seeds. cells labels s = l \<and>
              (\<forall>c. cells labels c = l \<longrightarrow>
                 cells elevations c = cells elevations s \<and>
                 path_in {d. cells labels d = l} s c)"
    unfolding labelling_inv_def by blast+
  have ins: "inside labels' d = inside labels d" for d
    by (simp add: inside_def in_range_def i(1,2))
  have ch: "cells labels' c = cells labels c \<or>
            cells labels c = -1 \<and> cells labels' c = g \<and> inside labels c \<and>
            cells elevations c = cells elevations seed" for c
    using spec [OF i(4), of c] j2 [of c] by auto
  have old: "cells labels' c = cells labels c" if "cells labels c \<noteq> -1" for c
    using ch [of c] that by blast
  have old': "cells labels c = l" if "cells labels' c = l" "l \<noteq> g" for c l
    using ch [of c] that by auto
  have k2: "\<forall>c. cells labels' c = -1 \<or>
           0 \<le> cells labels' c \<and> cells labels' c < g + 1 \<and> inside labels' c"
  proof
    fix c
    show "cells labels' c = -1 \<or>
           0 \<le> cells labels' c \<and> cells labels' c < g + 1 \<and> inside labels' c"
      using ch [of c] j2 [of c] g by (auto simp: ins)
  qed
  have k3: "\<forall>c d. inside labels' d \<longrightarrow> adjacent c d \<longrightarrow> cells labels' c \<noteq> -1 \<longrightarrow>
           cells elevations d = cells elevations c \<longrightarrow> cells labels' d = cells labels' c"
  proof (intro allI impI)
    fix c d
    assume a: "inside labels' d" "adjacent c d" "cells labels' c \<noteq> -1"
      "cells elevations d = cells elevations c"
    show "cells labels' d = cells labels' c"
    proof (cases "cells labels c = -1")
      case False
      then have "cells labels d = cells labels c"
        using j3 [of d c] a by (simp add: ins)
      then show ?thesis using False old by auto
    next
      case True
      then have c: "cells labels' c = g" "cells elevations c = cells elevations seed"
        using ch [of c] a(3) by auto
      have "inside labels d" using a(1) by (simp add: ins)
      with i(5) c(1) a(2)
      have "d \<in> set [] \<or> cells elevations d \<noteq> cells elevations seed \<or> cells labels' d > -1"
        by blast
      then have "cells labels' d > -1" using a(4) c(2) by simp
      then have d: "cells labels' d \<noteq> -1" by simp
      show ?thesis
      proof (cases "cells labels d = -1")
        case True
        then show ?thesis using ch [of d] d c(1) by auto
      next
        case False
        have "inside labels c" using True ch [of c] a(3) by auto
        then have "cells labels c = cells labels d"
          using j3 [of c d] False a adjacent_sym by auto
        then show ?thesis using True False by simp
      qed
    qed
  qed
  have k4: "\<forall>l. 0 \<le> l \<longrightarrow> l < g + 1 \<longrightarrow>
           (\<exists>s \<in> seeds. cells labels' s = l \<and>
              (\<forall>c. cells labels' c = l \<longrightarrow>
                 cells elevations c = cells elevations s \<and>
                 path_in {d. cells labels' d = l} s c))"
  proof (intro allI impI)
    fix l :: int assume l: "0 \<le> l" "l < g + 1"
    show "\<exists>s \<in> seeds. cells labels' s = l \<and>
              (\<forall>c. cells labels' c = l \<longrightarrow>
                 cells elevations c = cells elevations s \<and>
                 path_in {d. cells labels' d = l} s c)"
    proof (cases "l = g")
      case True
      have "cells labels' seed > -1" using i(6) by simp
      then have "cells labels' seed = g" using ch [of seed] seed(2) by auto
      moreover have "cells elevations c = cells elevations seed" if "cells labels' c = g" for c
        using ch [of c] j2 [of c] that g by auto
      ultimately show ?thesis using i(7) seed(1) True by blast
    next
      case False
      then have lg: "l < g" using l by simp
      from j4 [OF l(1) lg] obtain s where s: "s \<in> seeds" "cells labels s = l"
        "\<And>c. cells labels c = l \<Longrightarrow> cells elevations c = cells elevations s \<and>
                 path_in {d. cells labels d = l} s c"
        by blast
      have sub: "{d. cells labels d = l} \<subseteq> {d. cells labels' d = l}"
        using old l(1) by auto
      have "cells labels' s = l" using old [of s] s(2) l(1) by auto
      moreover have "cells elevations c = cells elevations s \<and>
                 path_in {d. cells labels' d = l} s c" if "cells labels' c = l" for c
        using s(3) [OF old' [OF that False]] path_in_mono [OF _ sub] by blast
      ultimately show ?thesis using s(1) by blast
    qed
  qed
  show ?thesis unfolding labelling_inv_def using k2 k3 k4 by blast
qed

lemma labelling_invD:
  assumes "labelling_inv elevations seeds labels g"
  shows "\<And>c. cells labels c = -1 \<or> 0 \<le> cells labels c \<and> cells labels c < g \<and> inside labels c"
    and "\<And>c d. inside labels d \<Longrightarrow> adjacent c d \<Longrightarrow> cells labels c \<noteq> -1 \<Longrightarrow>
           cells elevations d = cells elevations c \<Longrightarrow> cells labels d = cells labels c"
    and "\<And>l. 0 \<le> l \<Longrightarrow> l < g \<Longrightarrow>
           \<exists>s \<in> seeds. cells labels s = l \<and>
              (\<forall>c. cells labels c = l \<longrightarrow>
                 cells elevations c = cells elevations s \<and>
                 path_in {d. cells labels d = l} s c)"
  using assms unfolding labelling_inv_def by blast+

lemma label_flats_total:
  fixes elevations :: "'e array2d"
  assumes "width labels = width elevations" "height labels = height elevations"
    and "labelling_inv elevations seeds labels g" and "0 \<le> g"
    and "set low \<subseteq> seeds" and "\<forall>c \<in> set low. inside labels c"
  shows "\<exists>labels' g'. label_flats low elevations (labels, g) = Some (Inr (labels', g')) \<and>
           width labels' = width labels \<and> height labels' = height labels \<and>
           labelling_inv elevations seeds labels' g' \<and> g \<le> g' \<and>
           (\<forall>c \<in> set low. cells labels' c \<noteq> -1) \<and>
           (\<forall>c. cells labels c \<noteq> -1 \<longrightarrow> cells labels' c = cells labels c)"
  using assms
proof (induction low arbitrary: labels g)
  case Nil
  then show ?case by simp
next
  case (Cons c low)
  obtain x y where c: "c = (x, y)" by (cases c)
  have ins: "inside labels (x, y)" using Cons.prems(6) c by simp
  then have rd: "rd labels x y = Inr (cells labels (x, y))"
    by (simp add: inside_def)
  note j = labelling_invD [OF Cons.prems(3)]
  show ?case
  proof (cases "cells labels (x, y) = -1")
    case False
    from Cons.IH [OF Cons.prems(1-4)] Cons.prems(5,6)
    obtain labels' g' where r: "label_flats low elevations (labels, g) = Some (Inr (labels', g'))"
      "width labels' = width labels" "height labels' = height labels"
      "labelling_inv elevations seeds labels' g'" "g \<le> g'"
      "\<forall>c \<in> set low. cells labels' c \<noteq> -1"
      "\<forall>c. cells labels c \<noteq> -1 \<longrightarrow> cells labels' c = cells labels c"
      by auto
    have "cells labels' (x, y) \<noteq> -1" using r(7) False by simp
    then show ?thesis using r False by (simp add: c rd)
  next
    case True
    have fresh: "\<forall>d. cells labels d \<noteq> g" using j(1) Cons.prems(4) by force
    from label_this_total [OF Cons.prems(1,2) ins Cons.prems(4) fresh]
    obtain labels1 where l1: "label_this x y g labels elevations = Some (Inr labels1)"
      "label_this_inv (cells elevations (x, y)) g elevations (x, y) labels ([], labels1)"
      by blast
    note i = label_this_invD [OF l1(2)]
    have J1: "labelling_inv elevations seeds labels1 (g + 1)"
      using labelling_inv_label_this [OF Cons.prems(3,4) l1(2) _ True] Cons.prems(5) c by simp
    have d1: "width labels1 = width elevations" "height labels1 = height elevations"
      using i(1,2) Cons.prems(1,2) by simp_all
    have ins1: "\<forall>c \<in> set low. inside labels1 c"
      using Cons.prems(6) by (simp add: inside_def in_range_def i(1,2))
    have g1: "0 \<le> g + 1" using Cons.prems(4) by simp
    from Cons.IH [OF d1 J1 g1 _ ins1] Cons.prems(5)
    obtain labels' g' where r: "label_flats low elevations (labels1, g + 1) = Some (Inr (labels', g'))"
      "width labels' = width labels1" "height labels' = height labels1"
      "labelling_inv elevations seeds labels' g'" "g + 1 \<le> g'"
      "\<forall>c \<in> set low. cells labels' c \<noteq> -1"
      "\<forall>c. cells labels1 c \<noteq> -1 \<longrightarrow> cells labels' c = cells labels1 c"
      by auto
    have keep: "cells labels1 d = cells labels d" if "cells labels d \<noteq> -1" for d
      using spec [OF i(4), of d] j(1) [of d] that by auto
    have "cells labels1 (x, y) \<noteq> -1" using i(6) by auto
    then have "cells labels' (x, y) \<noteq> -1" using r(7) by simp
    moreover have "\<forall>d. cells labels d \<noteq> -1 \<longrightarrow> cells labels' d = cells labels d"
      using keep r(7) by simp
    ultimately show ?thesis using r True l1(1) i(1,2) by (simp add: c rd)
  qed
qed

lemma labelling_inv_init: "labelling_inv elevations seeds (resize_init labels w h (-1)) 0"
  by (simp add: labelling_inv_def resize_init_def)

lemma labelling_inv_same_label:
  assumes "labelling_inv elevations seeds labels g"
    and "cells labels c \<noteq> -1" "cells labels d = cells labels c"
  shows "cells elevations c = cells elevations d \<and>
         path_in {e. cells labels e = cells labels c} c d"
proof -
  note j = labelling_invD [OF assms(1)]
  have l: "0 \<le> cells labels c" "cells labels c < g" using j(1) [of c] assms(2) by auto
  from j(3) [OF l] obtain s where s:
    "\<And>e. cells labels e = cells labels c \<Longrightarrow> cells elevations e = cells elevations s \<and>
             path_in {d. cells labels d = cells labels c} s e"
    by blast
  from s [of c] s [of d] assms(3) show ?thesis
    using path_in_sym path_in_trans by (metis (no_types, lifting))
qed

lemma labelling_inv_reach:
  assumes "labelling_inv elevations seeds labels g"
    and "path_in {d. inside labels d \<and> cells elevations d = e} s c"
    and "cells labels s \<noteq> -1"
  shows "cells labels c = cells labels s"
  using assms(2,3)
proof (induction rule: path_in.induct)
  case (start a)
  then show ?case by simp
next
  case (step a b c)
  have "cells elevations b = e" using path_in_ends [OF step.hyps(1)] by simp
  then show ?case
    using labelling_invD(2) [OF assms(1), of c b] step by simp
qed

lemma labelling_inv_labelled_iff:
  assumes J: "labelling_inv elevations seeds labels g"
    and seeds: "\<forall>s \<in> seeds. cells labels s \<noteq> -1"
  shows "cells labels c \<noteq> -1 \<longleftrightarrow>
         (\<exists>s \<in> seeds. path_in {d. inside labels d \<and> cells elevations d = cells elevations s} s c)"
proof
  assume c: "cells labels c \<noteq> -1"
  note j = labelling_invD [OF J]
  have l: "0 \<le> cells labels c" "cells labels c < g" using j(1) [of c] c by auto
  from j(3) [OF l] obtain s where s: "s \<in> seeds"
    "\<And>e. cells labels e = cells labels c \<Longrightarrow> cells elevations e = cells elevations s \<and>
             path_in {d. cells labels d = cells labels c} s e"
    by blast
  have "{d. cells labels d = cells labels c}
          \<subseteq> {d. inside labels d \<and> cells elevations d = cells elevations s}"
    using s(2) j(1) c by force
  then have "path_in {d. inside labels d \<and> cells elevations d = cells elevations s} s c"
    using s(2) [of c] path_in_mono by blast
  then show "\<exists>s \<in> seeds. path_in {d. inside labels d \<and> cells elevations d = cells elevations s} s c"
    using s(1) by blast
next
  assume "\<exists>s \<in> seeds. path_in {d. inside labels d \<and> cells elevations d = cells elevations s} s c"
  then obtain s where s: "s \<in> seeds"
    "path_in {d. inside labels d \<and> cells elevations d = cells elevations s} s c" by blast
  then show "cells labels c \<noteq> -1"
    using labelling_inv_reach [OF J s(2)] seeds by auto
qed

section \<open>The queue of BuildGradient\<close>

lemma push_neighbours_Inr:
  "push_neighbours test x y ns edges = Inr edges' \<Longrightarrow>
   edges' = edges @ map (\<lambda>n. (x + dx n, y + dy n)) (filter (\<lambda>n. test n = Inr True) ns)"
proof (induction ns arbitrary: edges)
  case Nil
  then show ?case by simp
next
  case (Cons n ns)
  show ?case
  proof (cases "test n")
    case (Inl e)
    then show ?thesis using Cons.prems by simp
  next
    case (Inr b)
    show ?thesis
    proof (cases b)
      case True
      then have "push_neighbours test x y ns (edges @ [(x + dx n, y + dy n)]) = Inr edges'"
        using Cons.prems Inr by simp
      from Cons.IH [OF this] show ?thesis using Inr True by simp
    next
      case False
      then have "push_neighbours test x y ns edges = Inr edges'"
        using Cons.prems Inr by simp
      from Cons.IH [OF this] show ?thesis using Inr False by simp
    qed
  qed
qed

lemma push_neighbours_total:
  "\<forall>n \<in> set ns. \<exists>b. test n = Inr b \<Longrightarrow>
   push_neighbours test x y ns edges =
     Inr (edges @ map (\<lambda>n. (x + dx n, y + dy n)) (filter (\<lambda>n. test n = Inr True) ns))"
proof (induction ns arbitrary: edges)
  case Nil
  then show ?case by simp
next
  case (Cons n ns)
  then obtain b where "test n = Inr b" by auto
  then show ?case using Cons by (cases b) auto
qed

lemma gradient_test_True:
  "gradient_test NO_FLOW elevations flowdirs x y n = Inr True \<longleftrightarrow>
     IN_GRID (x + dx n) (y + dy n) (width elevations) (height elevations) \<and>
     in_range elevations x y \<and>
     cells elevations (x + dx n, y + dy n) = cells elevations (x, y) \<and>
     in_range flowdirs (x + dx n) (y + dy n) \<and>
     cells flowdirs (x + dx n, y + dy n) = NO_FLOW"
  by (auto simp: gradient_test_def Let_def ebind_eq_Inr rd_eq_Inr)

lemma combine_test_True:
  "combine_test elevations x y n = Inr True \<longleftrightarrow>
     IN_GRID (x + dx n) (y + dy n) (width elevations) (height elevations) \<and>
     in_range elevations x y \<and>
     cells elevations (x + dx n, y + dy n) = cells elevations (x, y)"
  by (auto simp: combine_test_def Let_def ebind_eq_Inr rd_eq_Inr)

lemma wf_BuildGradient_measure: "wf BuildGradient_measure"
  unfolding BuildGradient_measure_def by (intro wf_inv_image wf_lex_prod wf_less_than)

lemma one_marker_head:
  assumes "one_marker ((x, y) # rest)"
  shows "if x = -1 then (x, y) = iteration_marker \<and> (\<forall>c \<in> set rest. fst c \<noteq> -1)
         else one_marker rest"
proof -
  from assms obtain A B where ab: "(x, y) # rest = A @ [iteration_marker] @ B"
    "\<forall>c \<in> set A. fst c \<noteq> -1" "\<forall>c \<in> set B. fst c \<noteq> -1"
    unfolding one_marker_def by blast
  show ?thesis
  proof (cases A)
    case Nil
    then show ?thesis using ab by (auto simp: iteration_marker_def)
  next
    case (Cons a A')
    then have "x \<noteq> -1" "rest = A' @ [iteration_marker] @ B" using ab by auto
    then show ?thesis using ab(2,3) Cons unfolding one_marker_def by auto
  qed
qed

lemma one_marker_append:
  assumes "one_marker edges" and "\<forall>c \<in> set new. fst c \<noteq> -1"
  shows "one_marker (edges @ new)"
proof -
  from assms(1) obtain A B where "edges = A @ [iteration_marker] @ B"
    "\<forall>c \<in> set A. fst c \<noteq> -1" "\<forall>c \<in> set B. fst c \<noteq> -1"
    unfolding one_marker_def by blast
  then have "edges @ new = A @ [iteration_marker] @ (B @ new)"
    "\<forall>c \<in> set A. fst c \<noteq> -1" "\<forall>c \<in> set (B @ new). fst c \<noteq> -1"
    using assms(2) by auto
  then show ?thesis unfolding one_marker_def by blast
qed

lemma BuildGradient_step_decreases:
  fixes elevations :: "'e array2d"
  assumes inv: "1 \<le> loops" "one_marker edges"
    and b: "length edges \<noteq> 1"
    and body: "BuildGradient_body NO_FLOW elevations flowdirs labels
                 (edges, loops, incrementations, flat_height) = Inr s'"
  shows "(case s' of (edges', loops', incrementations', flat_height') \<Rightarrow>
            1 \<le> loops' \<and> one_marker edges') \<and>
         (s', (edges, loops, incrementations, flat_height)) \<in> BuildGradient_measure"
proof -
  obtain x y rest where q: "edges = (x, y) # rest"
    using inv(2) by (cases edges) (auto simp: one_marker_def)
  note h = one_marker_head [OF inv(2) [unfolded q]]
  show ?thesis
  proof (cases "x = -1")
    case True
    then have m: "\<forall>c \<in> set rest. fst c \<noteq> -1" using h by simp
    have s': "s' = (rest @ [iteration_marker], loops + 1, incrementations, flat_height)"
      using body True by (simp add: q)
    have "one_marker (rest @ [iteration_marker])"
      unfolding one_marker_def using m by (intro exI [of _ rest] exI [of _ "[]"]) simp
    moreover have "dropWhile (\<lambda>c. fst c \<noteq> -1) (rest @ [iteration_marker]) = [iteration_marker]"
      using m by (simp add: dropWhile_append iteration_marker_def)
    moreover have "rest \<noteq> []" using b q by auto
    ultimately show ?thesis using inv(1) True
      by (simp add: s' q BuildGradient_measure_def)
  next
    case False
    then have om: "one_marker rest" using h by simp
    from body False obtain v where v: "rd incrementations x y = Inr v"
      by (auto simp: q ebind_eq_Inr)
    then have ins: "inside incrementations (x, y)" and v_def: "v = cells incrementations (x, y)"
      by (simp_all add: rd_eq_Inr inside_def)
    show ?thesis
    proof (cases "v > 0")
      case True
      then have "s' = (rest, loops, incrementations, flat_height)"
        using body False v by (simp add: q)
      then show ?thesis using inv(1) om by (simp add: q BuildGradient_measure_def)
    next
      case nv: False
      from body False v nv obtain fh' edges' where
        e: "push_neighbours (gradient_test NO_FLOW elevations flowdirs x y) x y directions rest
              = Inr edges'"
        and s': "s' = (edges', loops, upd incrementations x y loops, fh')"
        by (auto simp: q ebind_eq_Inr)
      have "edges' = rest @ map (\<lambda>n. (x + dx n, y + dy n))
              (filter (\<lambda>n. gradient_test NO_FLOW elevations flowdirs x y n = Inr True) directions)"
        using push_neighbours_Inr [OF e] .
      moreover have "\<forall>c \<in> set (map (\<lambda>n. (x + dx n, y + dy n))
              (filter (\<lambda>n. gradient_test NO_FLOW elevations flowdirs x y n = Inr True) directions)).
              fst c \<noteq> -1"
        by (auto simp: gradient_test_True IN_GRID_def)
      ultimately have "one_marker edges'" using om one_marker_append by simp
      moreover have "card {c. inside (upd incrementations x y loops) c \<and>
                              cells (upd incrementations x y loops) c \<le> 0}
                       < card {c. inside incrementations c \<and> cells incrementations c \<le> 0}"
      proof (rule card_less_remove [where c = "(x, y)"])
        show "finite {c. inside incrementations c \<and> cells incrementations c \<le> 0}"
          by (rule finite_inside)
        show "(x, y) \<in> {c. inside incrementations c \<and> cells incrementations c \<le> 0}"
          using ins nv v_def by simp
        show "{c. inside (upd incrementations x y loops) c \<and>
                  cells (upd incrementations x y loops) c \<le> 0}
                \<subseteq> {c. inside incrementations c \<and> cells incrementations c \<le> 0} - {(x, y)}"
          using inv(1) by auto
      qed
      ultimately show ?thesis using inv(1) by (simp add: s' BuildGradient_measure_def)
    qed
  qed
qed


section \<open>The invariant of BuildGradient\<close>

lemma bg_invI:
  assumes "width inc = width elevations" "height inc = height elevations"
    and "1 \<le> loops" "length fh = nat g"
    and "\<forall>c. 0 \<le> cells inc c \<and> cells inc c \<le> loops"
    and "\<forall>c. 0 < cells inc c \<longrightarrow>
           inside elevations c \<and> cells labels c \<noteq> -1 \<and>
           cells inc c \<le> fh ! nat (cells labels c) \<and>
           flat_reach NO_FLOW elevations flowdirs seeds c"
    and "\<forall>c \<in> set A \<union> set B.
           inside elevations c \<and> cells labels c \<noteq> -1 \<and>
           flat_reach NO_FLOW elevations flowdirs seeds c"
    and "\<forall>c d. 0 < cells inc c \<longrightarrow> adjacent c d \<longrightarrow> inside elevations d \<longrightarrow>
           cells elevations d = cells elevations c \<longrightarrow> cells flowdirs d = NO_FLOW \<longrightarrow>
           0 < cells inc d \<and> cells inc d \<le> cells inc c + 1 \<or>
           loops - 1 \<le> cells inc c \<and> (d \<in> set A \<or> cells inc c = loops \<and> d \<in> set B)"
  shows "bg_inv NO_FLOW elevations flowdirs labels g seeds A B loops inc fh"
  using assms unfolding bg_inv_def by simp

lemma bg_invD:
  assumes "bg_inv NO_FLOW elevations flowdirs labels g seeds A B loops inc fh"
  shows "width inc = width elevations" "height inc = height elevations"
    and "1 \<le> loops" "length fh = nat g"
    and "\<forall>c. 0 \<le> cells inc c \<and> cells inc c \<le> loops"
    and "\<forall>c. 0 < cells inc c \<longrightarrow>
           inside elevations c \<and> cells labels c \<noteq> -1 \<and>
           cells inc c \<le> fh ! nat (cells labels c) \<and>
           flat_reach NO_FLOW elevations flowdirs seeds c"
    and "\<forall>c \<in> set A \<union> set B.
           inside elevations c \<and> cells labels c \<noteq> -1 \<and>
           flat_reach NO_FLOW elevations flowdirs seeds c"
    and "\<forall>c d. 0 < cells inc c \<longrightarrow> adjacent c d \<longrightarrow> inside elevations d \<longrightarrow>
           cells elevations d = cells elevations c \<longrightarrow> cells flowdirs d = NO_FLOW \<longrightarrow>
           0 < cells inc d \<and> cells inc d \<le> cells inc c + 1 \<or>
           loops - 1 \<le> cells inc c \<and> (d \<in> set A \<or> cells inc c = loops \<and> d \<in> set B)"
  using assms unfolding bg_inv_def by simp_all

lemma bg_inv_marker:
  assumes "bg_inv NO_FLOW elevations flowdirs labels g seeds [] B loops inc fh"
  shows "bg_inv NO_FLOW elevations flowdirs labels g seeds B [] (loops + 1) inc fh"
proof -
  note i = bg_invD [OF assms]
  show ?thesis
  proof (rule bg_invI [OF i(1) i(2) _ i(4) _ i(6)])
    show "1 \<le> loops + 1" using i(3) by simp
    show "\<forall>c. 0 \<le> cells inc c \<and> cells inc c \<le> loops + 1" using i(5) by (simp add: add_increasing2)
    show "\<forall>c \<in> set B \<union> set []. inside elevations c \<and> cells labels c \<noteq> -1 \<and>
           flat_reach NO_FLOW elevations flowdirs seeds c" using i(7) by simp
    show "\<forall>c d. 0 < cells inc c \<longrightarrow> adjacent c d \<longrightarrow> inside elevations d \<longrightarrow>
           cells elevations d = cells elevations c \<longrightarrow> cells flowdirs d = NO_FLOW \<longrightarrow>
           0 < cells inc d \<and> cells inc d \<le> cells inc c + 1 \<or>
           loops + 1 - 1 \<le> cells inc c \<and> (d \<in> set B \<or> cells inc c = loops + 1 \<and> d \<in> set [])"
      using i(8) by fastforce
  qed
qed

lemma bg_inv_skip:
  assumes "bg_inv NO_FLOW elevations flowdirs labels g seeds (a # A) B loops inc fh"
    and "0 < cells inc a"
  shows "bg_inv NO_FLOW elevations flowdirs labels g seeds A B loops inc fh"
proof -
  note i = bg_invD [OF assms(1)]
  show ?thesis
  proof (rule bg_invI [OF i(1) i(2) i(3) i(4) i(5) i(6)])
    show "\<forall>c \<in> set A \<union> set B. inside elevations c \<and> cells labels c \<noteq> -1 \<and>
           flat_reach NO_FLOW elevations flowdirs seeds c" using i(7) by simp
    show "\<forall>c d. 0 < cells inc c \<longrightarrow> adjacent c d \<longrightarrow> inside elevations d \<longrightarrow>
           cells elevations d = cells elevations c \<longrightarrow> cells flowdirs d = NO_FLOW \<longrightarrow>
           0 < cells inc d \<and> cells inc d \<le> cells inc c + 1 \<or>
           loops - 1 \<le> cells inc c \<and> (d \<in> set A \<or> cells inc c = loops \<and> d \<in> set B)"
    proof (intro allI impI)
      fix c d
      assume a: "0 < cells inc c" "adjacent c d" "inside elevations d"
        "cells elevations d = cells elevations c" "cells flowdirs d = NO_FLOW"
      with i(8) have "0 < cells inc d \<and> cells inc d \<le> cells inc c + 1 \<or>
           loops - 1 \<le> cells inc c \<and> (d \<in> set (a # A) \<or> cells inc c = loops \<and> d \<in> set B)"
        by blast
      moreover have "cells inc a \<le> cells inc c + 1" if "loops - 1 \<le> cells inc c"
        using i(5) that by (metis add.commute diff_le_eq order_trans)
      ultimately show "0 < cells inc d \<and> cells inc d \<le> cells inc c + 1 \<or>
           loops - 1 \<le> cells inc c \<and> (d \<in> set A \<or> cells inc c = loops \<and> d \<in> set B)"
        using assms(2) by auto
    qed
  qed
qed

lemma bg_inv_assign:
  fixes elevations :: "'e array2d"
  assumes inv: "bg_inv NO_FLOW elevations flowdirs labels g seeds ((x, y) # A) B loops inc fh"
    and unset: "\<not> 0 < cells inc (x, y)"
    and J: "labelling_inv elevations S labels g"
    and dims: "width labels = width elevations" "height labels = height elevations"
    and new: "\<And>d. d \<in> set new \<longleftrightarrow> adjacent (x, y) d \<and> inside elevations d \<and>
                cells elevations d = cells elevations (x, y) \<and> cells flowdirs d = NO_FLOW"
  shows "bg_inv NO_FLOW elevations flowdirs labels g seeds A (B @ new) loops
           (upd inc x y loops) (fh[nat (cells labels (x, y)) := loops])"
proof -
  note i = bg_invD [OF inv]
  note j = labelling_invD [OF J]
  let ?a = "(x, y)"
  let ?l = "cells labels ?a"
  let ?inc = "upd inc x y loops"
  let ?fh = "fh[nat ?l := loops]"
  have a: "inside elevations ?a" "?l \<noteq> -1" "flat_reach NO_FLOW elevations flowdirs seeds ?a"
    using i(7) by simp_all
  have l: "0 \<le> ?l" "?l < g" using j(1) [of ?a] a(2) by auto
  then have nl: "nat ?l < length fh" using i(4) by simp
  have inc_a: "cells inc ?a = 0" using i(5) unset by (metis order_antisym_conv not_le)
  have c': "cells ?inc c = (if c = ?a then loops else cells inc c)" for c
    by simp
  have insl: "inside labels d = inside elevations d" for d
    by (simp add: inside_def in_range_def dims)
  have k5: "\<forall>c. 0 \<le> cells ?inc c \<and> cells ?inc c \<le> loops"
    using i(3,5) by (auto simp: c')
  have k6: "\<forall>c. 0 < cells ?inc c \<longrightarrow>
           inside elevations c \<and> cells labels c \<noteq> -1 \<and>
           cells ?inc c \<le> ?fh ! nat (cells labels c) \<and>
           flat_reach NO_FLOW elevations flowdirs seeds c"
  proof (intro allI impI)
    fix c assume p: "0 < cells ?inc c"
    show "inside elevations c \<and> cells labels c \<noteq> -1 \<and>
           cells ?inc c \<le> ?fh ! nat (cells labels c) \<and>
           flat_reach NO_FLOW elevations flowdirs seeds c"
    proof (cases "c = ?a")
      case True
      then show ?thesis using a nl by simp
    next
      case False
      then have q: "0 < cells inc c" using p by simp
      with i(6) have r: "inside elevations c" "cells labels c \<noteq> -1"
        "cells inc c \<le> fh ! nat (cells labels c)"
        "flat_reach NO_FLOW elevations flowdirs seeds c" by blast+
      have "cells inc c \<le> loops" using i(5) by blast
      then have "cells inc c \<le> ?fh ! nat (cells labels c)"
        using r(3) nl by (simp add: nth_list_update)
      then show ?thesis using r False by simp
    qed
  qed
  have k7: "\<forall>c \<in> set A \<union> set (B @ new).
           inside elevations c \<and> cells labels c \<noteq> -1 \<and>
           flat_reach NO_FLOW elevations flowdirs seeds c"
  proof
    fix c assume "c \<in> set A \<union> set (B @ new)"
    then consider "c \<in> set (?a # A) \<union> set B" | "c \<in> set new" by auto
    then show "inside elevations c \<and> cells labels c \<noteq> -1 \<and>
           flat_reach NO_FLOW elevations flowdirs seeds c"
    proof cases
      case 1
      then show ?thesis using i(7) by blast
    next
      case 2
      then have n: "adjacent ?a c" "inside elevations c"
        "cells elevations c = cells elevations ?a" "cells flowdirs c = NO_FLOW"
        using new by blast+
      have "cells labels c = ?l" using j(2) [of c ?a] n a(2) by (simp add: insl)
      moreover have "flat_reach NO_FLOW elevations flowdirs seeds c"
        using flat_reach.step [OF a(3) n] .
      ultimately show ?thesis using n(2) a(2) by simp
    qed
  qed
  have k8: "\<forall>c d. 0 < cells ?inc c \<longrightarrow> adjacent c d \<longrightarrow> inside elevations d \<longrightarrow>
           cells elevations d = cells elevations c \<longrightarrow> cells flowdirs d = NO_FLOW \<longrightarrow>
           0 < cells ?inc d \<and> cells ?inc d \<le> cells ?inc c + 1 \<or>
           loops - 1 \<le> cells ?inc c \<and> (d \<in> set A \<or> cells ?inc c = loops \<and> d \<in> set (B @ new))"
  proof (intro allI impI)
    fix c d
    assume p: "0 < cells ?inc c" "adjacent c d" "inside elevations d"
      "cells elevations d = cells elevations c" "cells flowdirs d = NO_FLOW"
    show "0 < cells ?inc d \<and> cells ?inc d \<le> cells ?inc c + 1 \<or>
           loops - 1 \<le> cells ?inc c \<and> (d \<in> set A \<or> cells ?inc c = loops \<and> d \<in> set (B @ new))"
    proof (cases "c = ?a")
      case True
      then have "d \<in> set new" using p new by simp
      then show ?thesis using True by simp
    next
      case False
      then have q: "0 < cells inc c" "cells ?inc c = cells inc c" using p(1) by simp_all
      with i(8) p have old: "0 < cells inc d \<and> cells inc d \<le> cells inc c + 1 \<or>
           loops - 1 \<le> cells inc c \<and> (d \<in> set (?a # A) \<or> cells inc c = loops \<and> d \<in> set B)"
        by blast
      show ?thesis
      proof (cases "d = ?a")
        case True
        then have "loops - 1 \<le> cells inc c" using old inc_a by auto
        then show ?thesis using True i(3) q(2) by simp
      next
        case False
        then show ?thesis using old q(2) by auto
      qed
    qed
  qed
  have w: "width ?inc = width elevations" "height ?inc = height elevations"
    using i(1,2) by simp_all
  have len: "length ?fh = nat g" using i(4) by simp
  show ?thesis by (rule bg_invI [OF w i(3) len k5 k6 k7 k8])
qed

lemma BuildGradient_inv_step:
  fixes elevations :: "'e array2d"
  assumes inv: "BuildGradient_inv NO_FLOW elevations flowdirs labels g seeds s"
    and b: "case s of (edges, loops, inc, fh) \<Rightarrow> length edges \<noteq> 1"
    and J: "labelling_inv elevations S labels g"
    and dims: "width labels = width elevations" "height labels = height elevations"
      "width flowdirs = width elevations" "height flowdirs = height elevations"
  shows "\<exists>s'. BuildGradient_body NO_FLOW elevations flowdirs labels s = Inr s' \<and>
              BuildGradient_inv NO_FLOW elevations flowdirs labels g seeds s' \<and>
              (s', s) \<in> BuildGradient_measure"
proof -
  obtain edges loops inc fh where s: "s = (edges, loops, inc, fh)" by (cases s)
  from inv obtain A B where q: "edges = A @ [iteration_marker] @ B"
    and I: "bg_inv NO_FLOW elevations flowdirs labels g seeds A B loops inc fh"
    unfolding BuildGradient_inv_def s by auto
  note i = bg_invD [OF I]
  have no_marker: "fst c \<noteq> -1" if "c \<in> set A \<union> set B" for c
  proof -
    have "inside elevations c" using i(7) that by blast
    then show ?thesis by (auto simp: inside_def in_range_def IN_GRID_def)
  qed
  have om: "one_marker edges"
    unfolding one_marker_def q using no_marker by blast
  have "\<exists>s'. BuildGradient_body NO_FLOW elevations flowdirs labels s = Inr s' \<and>
              BuildGradient_inv NO_FLOW elevations flowdirs labels g seeds s'"
  proof (cases A)
    case Nil
    then have "BuildGradient_body NO_FLOW elevations flowdirs labels s
                 = Inr (B @ [iteration_marker] @ [], loops + 1, inc, fh)"
      by (simp add: s q iteration_marker_def)
    moreover have "bg_inv NO_FLOW elevations flowdirs labels g seeds B [] (loops + 1) inc fh"
      by (rule bg_inv_marker) (use I Nil in simp)
    ultimately show ?thesis unfolding BuildGradient_inv_def by auto
  next
    case (Cons a A')
    obtain x y where a: "a = (x, y)" by (cases a)
    have ina: "inside elevations (x, y)" "cells labels (x, y) \<noteq> -1"
      using i(7) Cons a by simp_all
    then have x: "x \<noteq> -1" by (auto simp: inside_def in_range_def IN_GRID_def)
    have rd_inc: "rd inc x y = Inr (cells inc (x, y))"
      using ina(1) by (simp add: inside_def in_range_def i(1,2) rd_def)
    show ?thesis
    proof (cases "0 < cells inc (x, y)")
      case True
      then have "BuildGradient_body NO_FLOW elevations flowdirs labels s
                   = Inr (A' @ [iteration_marker] @ B, loops, inc, fh)"
        using x by (simp add: s q Cons a rd_inc)
      moreover have "bg_inv NO_FLOW elevations flowdirs labels g seeds A' B loops inc fh"
        by (rule bg_inv_skip [where a = a]) (use I Cons a True in simp_all)
      ultimately show ?thesis unfolding BuildGradient_inv_def by auto
    next
      case False
      let ?l = "cells labels (x, y)"
      let ?test = "gradient_test NO_FLOW elevations flowdirs x y"
      let ?new = "map (\<lambda>n. (x + dx n, y + dy n)) (filter (\<lambda>n. ?test n = Inr True) directions)"
      have rd_lab: "rd labels x y = Inr ?l"
        using ina(1) by (simp add: inside_def in_range_def dims rd_def)
      have l: "0 \<le> ?l" "?l < g" using labelling_invD(1) [OF J, of "(x, y)"] ina(2) by auto
      then have vs: "vec_set fh ?l loops = Inr (fh[nat ?l := loops])"
        using i(4) by (simp add: vec_set_def)
      have rd_el: "rd elevations x y = Inr (cells elevations (x, y))"
        using ina(1) by (simp add: inside_def)
      have "\<exists>b. ?test n = Inr b" for n
        using ina(1) by (auto simp: gradient_test_def Let_def rd_def in_range_def dims inside_def)
      then have pn: "push_neighbours ?test x y directions es = Inr (es @ ?new)" for es
        using push_neighbours_total by blast
      have body: "BuildGradient_body NO_FLOW elevations flowdirs labels s
                   = Inr (A' @ [iteration_marker] @ (B @ ?new), loops, upd inc x y loops,
                          fh[nat ?l := loops])"
        using x False by (simp add: s q Cons a rd_inc rd_lab vs pn)
      have new: "d \<in> set ?new \<longleftrightarrow> adjacent (x, y) d \<and> inside elevations d \<and>
                cells elevations d = cells elevations (x, y) \<and> cells flowdirs d = NO_FLOW" for d
        using ina(1)
        by (cases d) (auto simp: gradient_test_True adjacent_iff_direction inside_def
            in_range_def dims)
      have "bg_inv NO_FLOW elevations flowdirs labels g seeds A' (B @ ?new) loops
              (upd inc x y loops) (fh[nat ?l := loops])"
        by (rule bg_inv_assign [OF _ False J dims(1,2) new]) (use I Cons a in simp)
      then show ?thesis using body unfolding BuildGradient_inv_def by auto
    qed
  qed
  then obtain s' where s': "BuildGradient_body NO_FLOW elevations flowdirs labels s = Inr s'"
    "BuildGradient_inv NO_FLOW elevations flowdirs labels g seeds s'" by blast
  have "(s', s) \<in> BuildGradient_measure"
    using BuildGradient_step_decreases [OF i(3) om _ s' (1) [unfolded s]] b s by simp
  then show ?thesis using s' by blast
qed

lemma BuildGradient_total:
  fixes elevations :: "'e array2d"
  assumes J: "labelling_inv elevations S labels g"
    and dims: "width labels = width elevations" "height labels = height elevations"
      "width flowdirs = width elevations" "height flowdirs = height elevations"
    and g: "length fh0 = nat g"
    and seeds: "\<forall>c \<in> set edges. inside elevations c \<and> cells labels c \<noteq> -1"
  shows "\<exists>inc fh. BuildGradient NO_FLOW elevations flowdirs (int_2d_like elevations 0) edges fh0
                     labels = Some (Inr (inc, fh)) \<and>
                   gradient_post NO_FLOW elevations flowdirs labels g (set edges) inc fh"
proof -
  let ?P = "BuildGradient_inv NO_FLOW elevations flowdirs labels g (set edges)"
  let ?b = "\<lambda>(edges, loops, incrementations, flat_height). length (edges :: grid_cell list) \<noteq> 1"
  let ?s = "(edges @ [iteration_marker], 1 :: int, int_2d_like elevations 0, fh0)"
  have "bg_inv NO_FLOW elevations flowdirs labels g (set edges) edges [] 1
          (int_2d_like elevations 0) fh0"
    by (rule bg_invI) (use g seeds in \<open>auto simp: int_2d_like_def intro: flat_reach.seed\<close>)
  then have init: "?P ?s" unfolding BuildGradient_inv_def by auto
  have "\<exists>t. while_loop ?b (BuildGradient_body NO_FLOW elevations flowdirs labels) ?s
               = Some (Inr t) \<and> ?P t \<and> \<not> ?b t"
  proof (rule while_loop_total [where P = ?P and R = BuildGradient_measure])
    show "wf BuildGradient_measure" by (rule wf_BuildGradient_measure)
    show "?P ?s" by (rule init)
    fix s assume "?P s" "?b s"
    then show "\<exists>s'. BuildGradient_body NO_FLOW elevations flowdirs labels s = Inr s' \<and> ?P s' \<and>
                 (s', s) \<in> BuildGradient_measure"
      by (rule BuildGradient_inv_step [OF _ _ J dims])
  qed
  then obtain es loops inc fh where t:
    "while_loop ?b (BuildGradient_body NO_FLOW elevations flowdirs labels) ?s
       = Some (Inr (es, loops, inc, fh))"
    "?P (es, loops, inc, fh)" "length es = 1"
    by auto
  from t(2,3) have "bg_inv NO_FLOW elevations flowdirs labels g (set edges) [] [] loops inc fh"
    unfolding BuildGradient_inv_def by auto
  then have "gradient_post NO_FLOW elevations flowdirs labels g (set edges) inc fh"
    unfolding gradient_post_def by blast
  then show ?thesis using t(1) by (simp add: BuildGradient_def BuildGradient_loop_def)
qed

lemma gradient_postD:
  assumes "gradient_post NO_FLOW elevations flowdirs labels g seeds inc fh"
  shows "width inc = width elevations" "height inc = height elevations" "length fh = nat g"
    and "\<And>c. 0 \<le> cells inc c"
    and "\<And>c. 0 < cells inc c \<Longrightarrow> inside elevations c \<and> cells labels c \<noteq> -1 \<and>
           cells inc c \<le> fh ! nat (cells labels c) \<and>
           flat_reach NO_FLOW elevations flowdirs seeds c"
    and "\<And>c d. 0 < cells inc c \<Longrightarrow> adjacent c d \<Longrightarrow> inside elevations d \<Longrightarrow>
           cells elevations d = cells elevations c \<Longrightarrow> cells flowdirs d = NO_FLOW \<Longrightarrow>
           0 < cells inc d \<and> cells inc d \<le> cells inc c + 1"
proof -
  from assms obtain loops where
    I: "bg_inv NO_FLOW elevations flowdirs labels g seeds [] [] loops inc fh"
    unfolding gradient_post_def by blast
  note i = bg_invD [OF I]
  show "width inc = width elevations" "height inc = height elevations" "length fh = nat g"
    using i(1,2,4) by simp_all
  show "\<And>c. 0 \<le> cells inc c" using i(5) by blast
  show "\<And>c. 0 < cells inc c \<Longrightarrow> inside elevations c \<and> cells labels c \<noteq> -1 \<and>
           cells inc c \<le> fh ! nat (cells labels c) \<and>
           flat_reach NO_FLOW elevations flowdirs seeds c" using i(6) by blast
  show "\<And>c d. 0 < cells inc c \<Longrightarrow> adjacent c d \<Longrightarrow> inside elevations d \<Longrightarrow>
           cells elevations d = cells elevations c \<Longrightarrow> cells flowdirs d = NO_FLOW \<Longrightarrow>
           0 < cells inc d \<and> cells inc d \<le> cells inc c + 1"
    using i(8) by fastforce
qed

lemma flat_reach_flat:
  assumes "flat_reach NO_FLOW elevations flowdirs seeds c"
    and "\<forall>s \<in> seeds. cells flowdirs s = NO_FLOW"
  shows "cells flowdirs c = NO_FLOW"
  using assms by (induction rule: flat_reach.induct) auto

section \<open>The loop of CombineGradients\<close>

lemma wf_CombineGradients_measure: "wf CombineGradients_measure"
  unfolding CombineGradients_measure_def by (intro wf_inv_image wf_lex_prod wf_less_than)

lemma cg_inv_init: "cg_inv towards fmask away flat_height labels (edge, towards, fmask)"
  by (simp add: cg_inv_def)

lemma cg_invI:
  assumes "width towards = width towards0" "height towards = height towards0"
    and "width fmask = width mask0" "height fmask = height mask0"
    and "\<And>c. cells towards c = cells towards0 c \<or> cells towards c = -1"
    and "\<And>c. cells fmask c =
               (if cells towards c = -1 \<and> 0 < cells towards0 c
                then combined towards0 away flat_height labels c else cells mask0 c)"
  shows "cg_inv towards0 mask0 away flat_height labels (edge, towards, fmask)"
  unfolding cg_inv_def by (simp only: prod.case, intro conjI allI) (rule assms)+

lemma cg_invD:
  assumes "cg_inv towards0 mask0 away flat_height labels (edge, towards, fmask)"
  shows "width towards = width towards0" "height towards = height towards0"
    and "width fmask = width mask0" "height fmask = height mask0"
    and "\<And>c. cells towards c = cells towards0 c \<or> cells towards c = -1"
    and "\<And>c. cells fmask c =
               (if cells towards c = -1 \<and> 0 < cells towards0 c
                then combined towards0 away flat_height labels c else cells mask0 c)"
  using assms unfolding cg_inv_def by (simp_all del: split_paired_All)

lemma vec_get_Inr: "vec_get v i = Inr h \<longleftrightarrow> 0 \<le> i \<and> i < int (length v) \<and> h = v ! nat i"
  by (auto simp: vec_get_def)

lemma wr_Inr: "wr a x y v = Inr a' \<longleftrightarrow> in_range a x y \<and> a' = upd a x y v"
  by (auto simp: wr_def)

lemma CombineGradients_step:
  fixes elevations :: "'e array2d"
  assumes inv: "cg_inv towards0 mask0 away flat_height labels s"
    and body: "CombineGradients_body elevations away flat_height labels s = Inr s'"
  shows "cg_inv towards0 mask0 away flat_height labels s' \<and> (s', s) \<in> CombineGradients_measure"
proof -
  obtain edge towards fmask where s: "s = (edge, towards, fmask)" by (cases s)
  obtain x y rest where q: "edge = (x, y) # rest"
    using body s by (cases edge) auto
  note i = cg_invD [OF inv [unfolded s]]
  let ?t = "cells towards (x, y)"
  from body have ins: "in_range towards x y"
    by (auto simp: s q ebind_eq_Inr rd_eq_Inr)
  then have rd_t: "rd towards x y = Inr ?t" by simp
  show ?thesis
  proof (cases "?t = -1")
    case True
    then have "s' = (rest, towards, fmask)" using body by (simp add: s q rd_t)
    then show ?thesis using inv by (simp add: s q cg_inv_def CombineGradients_measure_def)
  next
    case False
    then have t0: "cells towards0 (x, y) = ?t" using i(5) [of "(x, y)"] by auto
    from body False obtain edge' mask' where
      m: "(if ?t > 0 then
             ebind (wr fmask x y (2 * (?t - 1))) (\<lambda>mask'.
             ebind (rd away x y) (\<lambda>a.
               if a > 0 then
                 ebind (rd labels x y) (\<lambda>l.
                 ebind (vec_get flat_height l) (\<lambda>h.
                   Inr (upd mask' x y (cells mask' (x, y) + (h - a + 1)))))
               else Inr mask'))
           else Inr fmask) = Inr mask'"
      and s': "s' = (edge', upd towards x y (-1), mask')"
      by (auto simp: s q rd_t ebind_eq_Inr)
    have dims': "width mask' = width mask0 \<and> height mask' = height mask0"
      using m i(3,4)
      by (auto simp: ebind_eq_Inr wr_Inr rd_eq_Inr vec_get_Inr split: if_splits)
    have at: "cells mask' (x, y) =
                (if 0 < ?t then combined towards0 away flat_height labels (x, y)
                 else cells fmask (x, y))"
      using m t0
      by (auto simp: ebind_eq_Inr wr_Inr rd_eq_Inr vec_get_Inr combined_def split: if_splits)
    have other: "cells mask' c = cells fmask c" if "c \<noteq> (x, y)" for c
      using m that
      by (auto simp: ebind_eq_Inr wr_Inr rd_eq_Inr vec_get_Inr split: if_splits)
    have k6: "cells mask' c =
               (if cells (upd towards x y (-1)) c = -1 \<and> 0 < cells towards0 c
                then combined towards0 away flat_height labels c else cells mask0 c)" for c
    proof (cases "c = (x, y)")
      case True
      then show ?thesis using at t0 i(6) [of c] False by auto
    next
      case False
      then show ?thesis using other i(6) [of c] by simp
    qed
    have k5: "cells (upd towards x y (-1)) c = cells towards0 c \<or>
              cells (upd towards x y (-1)) c = -1" for c
      using i(5) [of c] by simp
    have inv': "cg_inv towards0 mask0 away flat_height labels s'"
      unfolding s' by (rule cg_invI) (use i(1,2) dims' k5 k6 in simp_all)
    have "card {c. inside (upd towards x y (-1)) c \<and> cells (upd towards x y (-1)) c \<noteq> -1}
            < card {c. inside towards c \<and> cells towards c \<noteq> -1}"
    proof (rule card_less_remove [where c = "(x, y)"])
      show "finite {c. inside towards c \<and> cells towards c \<noteq> -1}" by (rule finite_inside)
      show "(x, y) \<in> {c. inside towards c \<and> cells towards c \<noteq> -1}"
        using ins False by (simp add: inside_def)
      show "{c. inside (upd towards x y (-1)) c \<and> cells (upd towards x y (-1)) c \<noteq> -1}
              \<subseteq> {c. inside towards c \<and> cells towards c \<noteq> -1} - {(x, y)}"
        by auto
    qed
    then have "(s', s) \<in> CombineGradients_measure"
      by (simp add: s s' CombineGradients_measure_def)
    then show ?thesis using inv' by simp
  qed
qed


lemma CombineGradients_safe_step:
  fixes elevations :: "'e array2d"
  assumes q: "\<forall>c \<in> set edge. inside elevations c" "edge \<noteq> []"
    and dims: "width towards = width elevations" "height towards = height elevations"
      "width fmask = width elevations" "height fmask = height elevations"
      "width away = width elevations" "height away = height elevations"
      "width labels = width elevations" "height labels = height elevations"
    and lab: "\<forall>c. 0 < cells away c \<longrightarrow>
                0 \<le> cells labels c \<and> cells labels c < int (length flat_height)"
  shows "\<exists>edge' towards' mask'.
           CombineGradients_body elevations away flat_height labels (edge, towards, fmask)
             = Inr (edge', towards', mask') \<and>
           (\<forall>c \<in> set edge'. inside elevations c)"
proof -
  obtain x y rest where e: "edge = (x, y) # rest" using q(2) by (cases edge) auto
  have ins: "in_range elevations x y" using q(1) e by (simp add: inside_def)
  have r: "in_range towards x y" "in_range fmask x y" "in_range away x y" "in_range labels x y"
    using ins by (simp_all add: in_range_def dims)
  let ?t = "cells towards (x, y)"
  let ?test = "combine_test elevations x y"
  let ?new = "map (\<lambda>n. (x + dx n, y + dy n)) (filter (\<lambda>n. ?test n = Inr True) directions)"
  have "\<exists>b. ?test n = Inr b" for n
    using ins by (auto simp: combine_test_def Let_def)
  then have pn: "push_neighbours ?test x y directions es = Inr (es @ ?new)" for es
    using push_neighbours_total by blast
  have new: "\<forall>c \<in> set (rest @ ?new). inside elevations c"
    using q(1) e by (auto simp: combine_test_True inside_def in_range_def)
  have vg: "0 < cells away (x, y) \<Longrightarrow>
              vec_get flat_height (cells labels (x, y))
                = Inr (flat_height ! nat (cells labels (x, y)))"
    using lab by (simp add: vec_get_def)
  show ?thesis
  proof (cases "?t = -1")
    case True
    then show ?thesis using q(1) r by (simp add: e)
  next
    case False
    then show ?thesis using new r vg by (simp add: e pn wr_def)
  qed
qed

lemma CombineGradients_total:
  fixes elevations :: "'e array2d"
  assumes q: "\<forall>c \<in> set edge. inside elevations c"
    and dims: "width towards = width elevations" "height towards = height elevations"
      "width fmask = width elevations" "height fmask = height elevations"
      "width away = width elevations" "height away = height elevations"
      "width labels = width elevations" "height labels = height elevations"
    and lab: "\<forall>c. 0 < cells away c \<longrightarrow>
                0 \<le> cells labels c \<and> cells labels c < int (length flat_height)"
  shows "\<exists>towards' mask'.
           CombineGradients elevations towards away fmask edge flat_height labels
             = Some (Inr (towards', mask', [])) \<and>
           cg_inv towards fmask away flat_height labels ([], towards', mask')"
proof -
  let ?P = "\<lambda>s. cg_inv towards fmask away flat_height labels s \<and>
                (\<forall>c \<in> set (fst s). inside elevations c)"
  let ?b = "\<lambda>(edge, towards, flat_resolution_mask). length (edge :: grid_cell list) \<noteq> 0"
  let ?c = "CombineGradients_body elevations away flat_height labels"
  have "\<exists>t. while_loop ?b ?c (edge, towards, fmask) = Some (Inr t) \<and> ?P t \<and> \<not> ?b t"
  proof (rule while_loop_total [where P = ?P and R = CombineGradients_measure])
    show "wf CombineGradients_measure" by (rule wf_CombineGradients_measure)
    show "?P (edge, towards, fmask)" using q by (simp add: cg_inv_init)
    fix s assume s: "?P s" "?b s"
    obtain e t m where s_def: "s = (e, t, m)" by (cases s)
    note i = cg_invD [OF s(1) [unfolded s_def, THEN conjunct1]]
    have "\<exists>edge' towards' mask'. ?c (e, t, m) = Inr (edge', towards', mask') \<and>
           (\<forall>c \<in> set edge'. inside elevations c)"
      by (rule CombineGradients_safe_step) (use s s_def i dims lab in auto)
    then obtain s' where s': "?c s = Inr s'" "\<forall>c \<in> set (fst s'). inside elevations c"
      unfolding s_def by auto
    from CombineGradients_step [OF s(1) [THEN conjunct1] s'(1)] s'
    show "\<exists>s'. ?c s = Inr s' \<and> ?P s' \<and> (s', s) \<in> CombineGradients_measure" by blast
  qed
  then obtain e t m where
    "while_loop ?b ?c (edge, towards, fmask) = Some (Inr (e, t, m))"
    "cg_inv towards fmask away flat_height labels (e, t, m)" "e = []"
    by auto
  then show ?thesis by (simp add: CombineGradients_def CombineGradients_loop_def)
qed

section \<open>The whole run\<close>

lemma keep_labelled_total:
  "\<forall>c \<in> set high. inside labels c \<Longrightarrow>
   \<exists>temp'. keep_labelled labels high temp = Inr temp' \<and>
           set temp' = set temp \<union> {c \<in> set high. cells labels c \<noteq> -1} \<and>
           length temp' \<le> length temp + length high"
proof (induction high arbitrary: temp)
  case Nil
  then show ?case by simp
next
  case (Cons c high)
  obtain x y where c: "c = (x, y)" by (cases c)
  have rd: "rd labels x y = Inr (cells labels (x, y))"
    using Cons.prems c by (simp add: inside_def)
  from Cons.IH [of "if cells labels (x, y) \<noteq> -1 then temp @ [(x, y)] else temp"] Cons.prems
  obtain temp' where "keep_labelled labels high
      (if cells labels (x, y) \<noteq> -1 then temp @ [(x, y)] else temp) = Inr temp'"
    "set temp' = set (if cells labels (x, y) \<noteq> -1 then temp @ [(x, y)] else temp)
       \<union> {c \<in> set high. cells labels c \<noteq> -1}"
    "length temp' \<le> length (if cells labels (x, y) \<noteq> -1 then temp @ [(x, y)] else temp)
       + length high"
    by auto
  then show ?case by (auto simp: c rd split: if_splits)
qed

lemma low_edge_cell_inside:
  "low_edge_cell NO_FLOW flowdirs elevations c \<Longrightarrow> inside flowdirs c"
  by (simp add: low_edge_cell_def inside_def)

lemma high_edge_cell_inside:
  "high_edge_cell NO_FLOW flowdirs elevations c \<Longrightarrow> inside flowdirs c"
  by (simp add: high_edge_cell_def inside_def)

lemma inside_cong:
  "width a = width b \<Longrightarrow> height a = height b \<Longrightarrow> inside a c = inside b c"
  by (simp add: inside_def in_range_def)

lemma resolve_flats_barnes_total:
  fixes elevations :: "('e::ord) array2d"
  assumes dims: "width elevations = width flowdirs" "height elevations = height flowdirs"
    and ffe: "find_flat_edges NO_FLOW [] [] flowdirs elevations = Inr (low, high)"
  shows "\<exists>out. resolve_flats_barnes NO_FLOW elevations flowdirs fmask labels = Some (Inr out) \<and>
               run_post NO_FLOW elevations flowdirs out"
proof -
  let ?labels0 = "resize_init labels (width flowdirs) (height flowdirs) (-1)"
  let ?mask0 = "(resize_init fmask (width flowdirs) (height flowdirs) (-1))\<lparr>no_data := -1\<rparr>"
  note edges = find_flat_edges_result [OF ffe]
  have low_in: "\<forall>c \<in> set low. inside flowdirs c"
    using edges by (auto dest: low_edge_cell_inside)
  have high_in: "\<forall>c \<in> set high. inside flowdirs c"
    using edges by (auto dest: high_edge_cell_inside)
  have d0: "width ?labels0 = width elevations" "height ?labels0 = height elevations"
    by (simp_all add: resize_init_def dims)
  have m0: "width ?mask0 = width elevations" "height ?mask0 = height elevations"
    "\<And>c. cells ?mask0 c = -1"
    by (simp_all add: resize_init_def dims)
  show ?thesis
  proof (cases "low = []")
    case True
    let ?out = "\<lparr>r_mask = ?mask0, r_labels = ?labels0,
                 r_diagnostics = [if length high > 0 then No_Outlets else No_Flats],
                 r_low_edges = low, r_high_edges = high, r_locals = None\<rparr>"
    have "resolve_flats_barnes NO_FLOW elevations flowdirs fmask labels = Some (Inr ?out)"
      using True by (simp add: resolve_flats_barnes_def ffe)
    moreover have "run_post NO_FLOW elevations flowdirs ?out"
      unfolding run_post_def using ffe True d0 m0 dims
      by (simp add: labelling_inv_init)
    ultimately show ?thesis by blast
  next
    case False
    have low0: "\<forall>c \<in> set low. inside ?labels0 c"
      using low_in inside_cong [OF d0 [unfolded dims]] by blast
    from label_flats_total [where seeds = "set low" and g = 0, OF d0 labelling_inv_init _ _ low0]
    obtain labels1 g where lf:
      "label_flats low elevations (?labels0, 0) = Some (Inr (labels1, g))"
      "width labels1 = width ?labels0" "height labels1 = height ?labels0"
      "labelling_inv elevations (set low) labels1 g" "0 \<le> g"
      "\<forall>c \<in> set low. cells labels1 c \<noteq> -1"
      by auto
    have d1: "width labels1 = width elevations" "height labels1 = height elevations"
      using lf(2,3) d0 by simp_all
    have "\<forall>c \<in> set high. inside labels1 c"
      using high_in inside_cong [OF d1 [unfolded dims]] by blast
    from keep_labelled_total [OF this, of "[]"]
    obtain temp where kl: "keep_labelled labels1 high [] = Inr temp"
      "set temp = {c \<in> set high. cells labels1 c \<noteq> -1}"
      by auto
    have dfd: "width flowdirs = width elevations" "height flowdirs = height elevations"
      using dims by simp_all
    have low_seeds: "\<forall>c \<in> set low. inside elevations c \<and> cells labels1 c \<noteq> -1"
      using low_in lf(6) inside_cong [OF dims] by blast
    have high_seeds: "\<forall>c \<in> set temp. inside elevations c \<and> cells labels1 c \<noteq> -1"
      using high_in kl(2) inside_cong [OF dims] by blast
    let ?fh0 = "replicate (nat g) (0 :: int)"
    from BuildGradient_total [where ?fh0.0 = ?fh0 and NO_FLOW = NO_FLOW,
        OF lf(4) d1 dfd _ low_seeds]
    obtain towards1 fh1 where bg1:
      "BuildGradient NO_FLOW elevations flowdirs (int_2d_like elevations 0) low ?fh0 labels1
         = Some (Inr (towards1, fh1))"
      "gradient_post NO_FLOW elevations flowdirs labels1 g (set low) towards1 fh1"
      by auto
    note p1 = gradient_postD [OF bg1(2)]
    from BuildGradient_total [where NO_FLOW = NO_FLOW, OF lf(4) d1 dfd p1(3) high_seeds]
    obtain away1 fh2 where bg2:
      "BuildGradient NO_FLOW elevations flowdirs (int_2d_like elevations 0) temp fh1 labels1
         = Some (Inr (away1, fh2))"
      "gradient_post NO_FLOW elevations flowdirs labels1 g (set temp) away1 fh2"
      by auto
    note p2 = gradient_postD [OF bg2(2)]
    have lab: "\<forall>c. 0 < cells away1 c \<longrightarrow>
                 0 \<le> cells labels1 c \<and> cells labels1 c < int (length fh2)"
    proof (intro allI impI)
      fix c assume "0 < cells away1 c"
      then have "cells labels1 c \<noteq> -1" using p2(5) by blast
      then show "0 \<le> cells labels1 c \<and> cells labels1 c < int (length fh2)"
        using labelling_invD(1) [OF lf(4), of c] p2(3) lf(5) by auto
    qed
    have low_el: "\<forall>c \<in> set low. inside elevations c" using low_seeds by blast
    from CombineGradients_total [OF low_el p1(1,2) m0(1,2) p2(1,2) d1 lab]
    obtain towards2 mask1 where cg:
      "CombineGradients elevations towards1 away1 ?mask0 low fh2 labels1
         = Some (Inr (towards2, mask1, []))"
      "cg_inv towards1 ?mask0 away1 fh2 labels1 ([], towards2, mask1)"
      by blast
    note c = cg_invD [OF cg(2)]
    let ?out = "\<lparr>r_mask = mask1, r_labels = labels1,
                 r_diagnostics = (if length temp < length high then [Not_All_Outlets] else []),
                 r_low_edges = low, r_high_edges = high,
                 r_locals = Some \<lparr>l_group_number = g, l_high_edges = temp,
                   l_towards = towards1, l_flat_height_towards = fh1,
                   l_away = away1, l_flat_height = fh2,
                   l_towards_final = towards2, l_edge_final = []\<rparr>\<rparr>"
    have "resolve_flats_barnes NO_FLOW elevations flowdirs fmask labels = Some (Inr ?out)"
      using False by (simp add: resolve_flats_barnes_def ffe lf(1) kl(1) bg1(1) bg2(1) cg(1))
    moreover have "run_post NO_FLOW elevations flowdirs ?out"
      unfolding run_post_def
      using ffe d1 dims c(3,4) m0(1,2) lf(4,5,6) bg1(2) bg2(2) kl(2) c(6) m0(3)
      by (simp del: split_paired_All)
    ultimately show ?thesis by blast
  qed
qed

lemma resolve_flats_barnes_returns:
  fixes elevations :: "('e::ord) array2d"
  assumes "width elevations = width flowdirs" "height elevations = height flowdirs"
    and "width flowdirs \<le> 0 \<or> height flowdirs \<noteq> 0"
  shows "\<exists>out. resolve_flats_barnes NO_FLOW elevations flowdirs fmask labels = Some (Inr out) \<and>
               run_post NO_FLOW elevations flowdirs out"
proof -
  have "\<exists>q. find_flat_edges NO_FLOW [] [] flowdirs elevations = Inr q"
    by (rule find_flat_edges_no_error) (use assms in simp_all)
  then obtain low high where
    "find_flat_edges NO_FLOW [] [] flowdirs elevations = Inr (low, high)" by auto
  then show ?thesis using assms(1,2) by (rule resolve_flats_barnes_total [rotated 2])
qed

lemma resolve_flats_barnes_post:
  fixes elevations :: "('e::ord) array2d"
  assumes "width elevations = width flowdirs" "height elevations = height flowdirs"
    and run: "resolve_flats_barnes NO_FLOW elevations flowdirs fmask labels = Some (Inr out)"
  shows "run_post NO_FLOW elevations flowdirs out"
proof (cases "find_flat_edges NO_FLOW [] [] flowdirs elevations")
  case (Inl e)
  then show ?thesis using run by (simp add: resolve_flats_barnes_def)
next
  case (Inr q)
  obtain low high where "q = (low, high)" by (cases q)
  with Inr have "find_flat_edges NO_FLOW [] [] flowdirs elevations = Inr (low, high)" by simp
  from resolve_flats_barnes_total [OF assms(1,2) this, of fmask labels] run
  show ?thesis by simp
qed

section \<open>The examples, computed\<close>

lemmas eval_simps = while_loop_unfold directions_def dx_def dy_def IN_GRID_def in_range_def
  rd_def wr_def upd_def Let_def neighbours_in_def row_elevations_def row_flowdirs_def empty_grid_def
  edge_test_def upto.simps
  resize_init_def int_2d_like_def vec_get_def vec_set_def gradient_test_def combine_test_def
  iteration_marker_def

lemma row_run_computed:
  "resolve_flats_barnes (-1) row_elevations row_flowdirs empty_grid empty_grid = Some (Inr row_run)"
  by (simp only: resolve_flats_barnes_def row_find_flat_edges)
     (simp add: label_this_def BuildGradient_def BuildGradient_loop_def CombineGradients_def
        CombineGradients_loop_def eval_simps row_run_def row_locals_def fun_eq_iff)

lemma pit_find_flat_edges:
  "find_flat_edges (-1) [] [] pit_flowdirs pit_elevations = Inr ([], [(0, 0)])"
  by (simp add: find_flat_edges_def pit_flowdirs_def pit_elevations_def eval_simps)

lemma cell_run_computed:
  "resolve_flats_barnes (-1) row_elevations cell_flowdirs empty_grid empty_grid
     = Some (Inr cell_run)"
  by (simp add: resolve_flats_barnes_def find_flat_edges_def cell_flowdirs_def cell_run_def
      eval_simps)


section \<open>What a run leaves\<close>

lemma run_post_labels:
  fixes elevations :: "('e::ord) array2d"
  assumes "run_post NO_FLOW elevations flowdirs out"
  shows "\<exists>g. labelling_inv elevations (set (r_low_edges out)) (r_labels out) g"
    and "\<forall>s \<in> set (r_low_edges out). cells (r_labels out) s \<noteq> -1"
    and "inside (r_labels out) c = inside flowdirs c"
    and "find_flat_edges NO_FLOW [] [] flowdirs elevations = Inr (r_low_edges out, r_high_edges out)"
proof -
  show "\<exists>g. labelling_inv elevations (set (r_low_edges out)) (r_labels out) g"
    using assms unfolding run_post_def by (cases "r_locals out") auto
  show "\<forall>s \<in> set (r_low_edges out). cells (r_labels out) s \<noteq> -1"
    using assms unfolding run_post_def by blast
  show "inside (r_labels out) c = inside flowdirs c"
    using assms unfolding run_post_def by (simp add: inside_def in_range_def)
  show "find_flat_edges NO_FLOW [] [] flowdirs elevations = Inr (r_low_edges out, r_high_edges out)"
    using assms unfolding run_post_def by blast
qed

lemma run_post_locals:
  fixes elevations :: "('e::ord) array2d"
  assumes "run_post NO_FLOW elevations flowdirs out" and "r_locals out = Some loc"
  shows "labelling_inv elevations (set (r_low_edges out)) (r_labels out) (l_group_number loc)"
    and "gradient_post NO_FLOW elevations flowdirs (r_labels out) (l_group_number loc)
           (set (r_low_edges out)) (l_towards loc) (l_flat_height_towards loc)"
    and "gradient_post NO_FLOW elevations flowdirs (r_labels out) (l_group_number loc)
           (set (l_high_edges loc)) (l_away loc) (l_flat_height loc)"
    and "set (l_high_edges loc) \<subseteq> set (r_high_edges out)"
    and "\<And>c. cells (r_mask out) c =
            (if cells (l_towards_final loc) c = -1 \<and> 0 < cells (l_towards loc) c
             then combined (l_towards loc) (l_away loc) (l_flat_height loc) (r_labels out) c
             else -1)"
  using assms unfolding run_post_def by (simp_all del: split_paired_All)

lemma run_post_mask_early:
  fixes elevations :: "('e::ord) array2d"
  assumes "run_post NO_FLOW elevations flowdirs out" and "r_locals out = None"
  shows "cells (r_mask out) c = -1"
  using assms unfolding run_post_def by (simp del: split_paired_All)

lemma high_edges_flat:
  fixes elevations :: "('e::ord) array2d"
  assumes "find_flat_edges NO_FLOW [] [] flowdirs elevations = Inr (low, high)" "c \<in> set high"
  shows "cells flowdirs c = NO_FLOW"
proof -
  have "high_edge_cell NO_FLOW flowdirs elevations c"
    using find_flat_edges_result [OF assms(1)] assms(2) by blast
  then show ?thesis unfolding high_edge_cell_iff by blast
qed

section \<open>The cells on low\_edges\<close>

text \<open>Claim C1, as amended. Every cell that \<^verbatim>\<open>find_flat_edges\<close> adds to \<^verbatim>\<open>low_edges\<close> has a
  defined flow direction (neither \<^verbatim>\<open>NO_FLOW\<close> nor no-data) and has an 8-neighbour in the
  grid that is flat (\<^verbatim>\<open>NO_FLOW\<close>) at the same elevation; in particular no flat cell is ever
  added to \<^verbatim>\<open>low_edges\<close>.\<close>

theorem low_edges_have_flow_direction:
  assumes "find_flat_edges NO_FLOW [] [] flowdirs elevations = Inr (low_edges, high_edges)"
    and "c \<in> set low_edges"
  shows "cells flowdirs c \<noteq> NO_FLOW \<and> cells flowdirs c \<noteq> no_data flowdirs \<and>
         (\<exists>d. adjacent c d \<and> in_range flowdirs (fst d) (snd d) \<and>
              cells flowdirs d = NO_FLOW \<and> cells elevations d = cells elevations c)"
proof -
  have "low_edge_cell NO_FLOW flowdirs elevations c"
    using find_flat_edges_result [OF assms(1)] assms(2) by blast
  then show ?thesis unfolding low_edge_cell_iff by blast
qed

theorem low_edges_have_flow_direction_witness:
  "find_flat_edges (-1) [] [] row_flowdirs row_elevations = Inr ([(0, 0)], []) \<and>
   (0, 0) \<in> set [(0, 0) :: grid_cell] \<and>
   cells row_flowdirs (0, 0) \<noteq> -1 \<and> cells row_flowdirs (0, 0) \<noteq> no_data row_flowdirs \<and>
   (\<exists>d. adjacent (0, 0) d \<and> in_range row_flowdirs (fst d) (snd d) \<and>
        cells row_flowdirs d = -1 \<and> cells row_elevations d = cells row_elevations (0, 0))"
proof -
  have e: "find_flat_edges (-1) [] [] row_flowdirs row_elevations = Inr ([(0, 0)], [])"
    by (simp add: find_flat_edges_def row_flowdirs_def row_elevations_def directions_def
      edge_test_def dx_def dy_def IN_GRID_def in_range_def rd_def Let_def upto.simps)
  have m: "(0, 0) \<in> set [(0, 0) :: grid_cell]" by simp
  from low_edges_have_flow_direction [OF e m] e m show ?thesis by simp
qed

text \<open>The claim as the spec states it fails on the single row: the cell added to
  \<^verbatim>\<open>low_edges\<close> is the first one, which has a flow direction and is not flat.\<close>

theorem low_edge_not_flat_counterexample:
  "find_flat_edges (-1) [] [] row_flowdirs row_elevations = Inr ([(0, 0)], []) \<and>
   cells row_flowdirs (0, 0) \<noteq> -1 \<and> cells row_flowdirs (0, 0) \<noteq> no_data row_flowdirs"
  by (simp add: find_flat_edges_def row_flowdirs_def row_elevations_def directions_def
      edge_test_def dx_def dy_def IN_GRID_def in_range_def rd_def Let_def upto.simps)

section \<open>The labels\<close>

text \<open>Claim C2, as amended. On grids of the same extent (with rows, when they have columns:
  see \<open>find_flat_edges\<close>) the run returns, and then: a cell has
  a label other than -1 if and only if it can be reached from some low edge by a walk through
  8-neighbours in the grid that all have the elevation of the low edge (whatever their flow
  directions: the low edge itself has one); and the cells that share a label other than -1
  have one elevation and are joined by walks through 8-neighbours with that label.\<close>

theorem label_partition:
  fixes elevations :: "('e::ord) array2d"
  assumes "width elevations = width flowdirs" "height elevations = height flowdirs"
    and "width flowdirs \<le> 0 \<or> height flowdirs \<noteq> 0"
  shows "\<exists>out. resolve_flats_barnes NO_FLOW elevations flowdirs fmask labels = Some (Inr out) \<and>
           find_flat_edges NO_FLOW [] [] flowdirs elevations
             = Inr (r_low_edges out, r_high_edges out) \<and>
           (\<forall>c. cells (r_labels out) c \<noteq> -1 \<longleftrightarrow>
                (\<exists>s \<in> set (r_low_edges out).
                   path_in {d. inside flowdirs d \<and> cells elevations d = cells elevations s} s c)) \<and>
           (\<forall>c d. cells (r_labels out) c \<noteq> -1 \<and> cells (r_labels out) d = cells (r_labels out) c \<longrightarrow>
                cells elevations c = cells elevations d \<and>
                path_in {e. cells (r_labels out) e = cells (r_labels out) c} c d)"
proof -
  from resolve_flats_barnes_returns [OF assms, of NO_FLOW fmask labels]
  obtain out where out:
    "resolve_flats_barnes NO_FLOW elevations flowdirs fmask labels = Some (Inr out)"
    "run_post NO_FLOW elevations flowdirs out" by blast
  note p = run_post_labels [OF out(2)]
  from p(1) obtain g where J: "labelling_inv elevations (set (r_low_edges out)) (r_labels out) g"
    by blast
  have "cells (r_labels out) c \<noteq> -1 \<longleftrightarrow>
          (\<exists>s \<in> set (r_low_edges out).
             path_in {d. inside flowdirs d \<and> cells elevations d = cells elevations s} s c)" for c
    using labelling_inv_labelled_iff [OF J p(2), of c] by (simp add: p(3))
  moreover have "cells elevations c = cells elevations d \<and>
                 path_in {e. cells (r_labels out) e = cells (r_labels out) c} c d"
    if "cells (r_labels out) c \<noteq> -1 \<and> cells (r_labels out) d = cells (r_labels out) c" for c d
    using labelling_inv_same_label [OF J] that by blast
  ultimately show ?thesis using out(1) p(4) by blast
qed

theorem label_partition_witness:
  "width row_elevations = width row_flowdirs \<and> height row_elevations = height row_flowdirs \<and>
   height row_flowdirs \<noteq> 0 \<and>
   resolve_flats_barnes (-1) row_elevations row_flowdirs empty_grid empty_grid
     = Some (Inr row_run) \<and>
   cells (r_labels row_run) (2, 0) \<noteq> -1 \<and>
   path_in {d. inside row_flowdirs d \<and> cells row_elevations d = cells row_elevations (0, 0)}
     (0, 0) (2, 0) \<and>
   cells (r_labels row_run) (2, 0) = cells (r_labels row_run) (1, 0) \<and>
   cells row_elevations (1, 0) = cells row_elevations (2, 0) \<and>
   path_in {e. cells (r_labels row_run) e = cells (r_labels row_run) (1, 0)} (1, 0) (2, 0)"
proof -
  have d: "width row_elevations = width row_flowdirs" "height row_elevations = height row_flowdirs"
    by (simp_all add: row_elevations_def row_flowdirs_def)
  have l: "cells (r_labels row_run) (2, 0) \<noteq> -1" "cells (r_labels row_run) (1, 0) \<noteq> -1"
    "cells (r_labels row_run) (2, 0) = cells (r_labels row_run) (1, 0)"
    by (simp_all add: row_run_def)
  have low: "set (r_low_edges row_run) = {(0, 0)}" by (simp add: row_run_def)
  have h: "height row_flowdirs \<noteq> 0" by (simp add: row_flowdirs_def)
  then have nd: "width row_flowdirs \<le> 0 \<or> height row_flowdirs \<noteq> 0" by simp
  from label_partition [OF d nd, of "-1" empty_grid empty_grid]
  obtain out where o:
    "resolve_flats_barnes (-1) row_elevations row_flowdirs empty_grid empty_grid = Some (Inr out)"
    "\<forall>c. cells (r_labels out) c \<noteq> -1 \<longleftrightarrow>
        (\<exists>s \<in> set (r_low_edges out).
           path_in {d. inside row_flowdirs d \<and> cells row_elevations d = cells row_elevations s}
             s c)"
    "\<forall>c d. cells (r_labels out) c \<noteq> -1 \<and> cells (r_labels out) d = cells (r_labels out) c \<longrightarrow>
        cells row_elevations c = cells row_elevations d \<and>
        path_in {e. cells (r_labels out) e = cells (r_labels out) c} c d"
    by (elim exE conjE)
  have out: "out = row_run" using o(1) unfolding row_run_computed by simp
  have "\<exists>s \<in> set (r_low_edges row_run).
           path_in {d. inside row_flowdirs d \<and> cells row_elevations d = cells row_elevations s}
             s (2, 0)"
    using spec [OF o(2), of "(2, 0)"] l(1) unfolding out by (simp del: split_paired_All)
  then have p1: "path_in {d. inside row_flowdirs d \<and>
                   cells row_elevations d = cells row_elevations (0, 0)} (0, 0) (2, 0)"
    unfolding low by blast
  have p2: "cells row_elevations (1, 0) = cells row_elevations (2, 0) \<and>
        path_in {e. cells (r_labels row_run) e = cells (r_labels row_run) (1, 0)} (1, 0) (2, 0)"
    using spec [OF spec [OF o(3), of "(1, 0)"], of "(2, 0)"] l(2,3) unfolding out by blast
  show ?thesis using d h l(1,3) row_run_computed p1 p2 by blast
qed

text \<open>The claim as the spec states it fails on the single row: cell 0 has a label although
  it has a flow direction.\<close>

theorem labelled_not_flat_counterexample:
  "resolve_flats_barnes (-1) row_elevations row_flowdirs empty_grid empty_grid
     = Some (Inr row_run) \<and>
   cells (r_labels row_run) (0, 0) \<noteq> -1 \<and> cells row_flowdirs (0, 0) \<noteq> -1"
  unfolding row_run_computed by (simp add: row_run_def row_flowdirs_def)

section \<open>The single row\<close>

text \<open>Claim C3, as amended. On the single row with elevations 5, 5, 5 and flow directions
  defined, \<^verbatim>\<open>NO_FLOW\<close>, \<^verbatim>\<open>NO_FLOW\<close>, the run finds cell 0 to be the one low edge, gives the
  three cells the label 0, computes \<^verbatim>\<open>towards\<close> 1, 2, 3 and leaves the mask 0, 2, 4.\<close>

theorem single_row_run:
  "resolve_flats_barnes (-1) row_elevations row_flowdirs empty_grid empty_grid
     = Some (Inr row_run) \<and>
   r_low_edges row_run = [(0, 0)] \<and> r_locals row_run = Some row_locals \<and>
   cells (r_labels row_run) (0, 0) = 0 \<and> cells (r_labels row_run) (1, 0) = 0 \<and>
   cells (r_labels row_run) (2, 0) = 0 \<and>
   cells (l_towards row_locals) (0, 0) = 1 \<and> cells (l_towards row_locals) (1, 0) = 2 \<and>
   cells (l_towards row_locals) (2, 0) = 3 \<and>
   cells (r_mask row_run) (0, 0) = 0 \<and> cells (r_mask row_run) (1, 0) = 2 \<and>
   cells (r_mask row_run) (2, 0) = 4"
  unfolding row_run_computed by (simp add: row_run_def row_locals_def)

text \<open>The claim as the spec states it fails: cell 1 is not a low edge, its \<^verbatim>\<open>towards\<close>
  distance is 2 and not 1, its mask value 2 and not 0, and the mask value of cell 2 is 4
  and not 2.\<close>

theorem single_row_counterexample:
  "resolve_flats_barnes (-1) row_elevations row_flowdirs empty_grid empty_grid
     = Some (Inr row_run) \<and>
   r_locals row_run = Some row_locals \<and>
   (1, 0) \<notin> set (r_low_edges row_run) \<and>
   cells (l_towards row_locals) (1, 0) \<noteq> 1 \<and> cells (l_towards row_locals) (2, 0) \<noteq> 2 \<and>
   cells (r_mask row_run) (1, 0) \<noteq> 0 \<and> cells (r_mask row_run) (2, 0) \<noteq> 2"
  unfolding row_run_computed by (simp add: row_run_def row_locals_def)

section \<open>The mask values of CombineGradients\<close>



section \<open>Descent of the mask\<close>

text \<open>Claim C5. After a run on grids of the same extent that went past the early return: for
  a flat cell \<open>c\<close> (\<^verbatim>\<open>NO_FLOW\<close>) whose mask is set, and an 8-neighbour \<open>c'\<close> with the label of
  \<open>c\<close> whose \<^verbatim>\<open>towards\<close> distance is one less than that of \<open>c\<close>, the mask of \<open>c\<close> is strictly
  greater than the mask of \<open>c'\<close>.\<close>

theorem monotone_descent:
  fixes elevations :: "('e::ord) array2d"
  assumes dims: "width elevations = width flowdirs" "height elevations = height flowdirs"
    and run: "resolve_flats_barnes NO_FLOW elevations flowdirs fmask labels = Some (Inr out)"
    and loc: "r_locals out = Some loc"
    and c: "cells (r_mask out) c \<noteq> -1" "cells flowdirs c = NO_FLOW"
    and c': "adjacent c c'" "cells (r_labels out) c' = cells (r_labels out) c"
      "cells (l_towards loc) c' = cells (l_towards loc) c - 1"
  shows "cells (r_mask out) c' < cells (r_mask out) c"
proof -
  have post: "run_post NO_FLOW elevations flowdirs out"
    using dims run by (rule resolve_flats_barnes_post)
  note p = run_post_locals [OF post loc]
  note t = gradient_postD [OF p(2)]
  note a = gradient_postD [OF p(3)]
  let ?t = "cells (l_towards loc)" and ?a = "cells (l_away loc)"
  let ?h = "l_flat_height loc ! nat (cells (r_labels out) c)"
  let ?A = "\<lambda>d. if ?a d > 0 then ?h - ?a d + 1 else 0"
  have mc: "0 < ?t c" "cells (r_mask out) c = 2 * (?t c - 1) + ?A c"
    using p(5) [of c] c(1) by (auto simp: combined_def split: if_splits)
  have lc: "inside elevations c" "cells (r_labels out) c \<noteq> -1" using t(5) [OF mc(1)] by simp_all
  have el: "cells elevations c = cells elevations c'"
    using labelling_inv_same_label [OF p(1) lc(2) c'(2)] by simp
  have Ac: "0 \<le> ?A c"
    using a(5) [of c] by auto
  have mc': "cells (r_mask out) c' = -1 \<or> cells (r_mask out) c' = 2 * (?t c' - 1) + ?A c'"
    using p(5) [of c'] c'(2) by (auto simp: combined_def)
  have "?A c' \<le> ?A c + 1"
  proof (cases "0 < ?a c'")
    case False
    then show ?thesis using Ac by simp
  next
    case True
    have "flat_reach NO_FLOW elevations flowdirs (set (l_high_edges loc)) c'"
      using a(5) [OF True] by simp
    moreover have "\<forall>s \<in> set (l_high_edges loc). cells flowdirs s = NO_FLOW"
      using high_edges_flat [OF run_post_labels(4) [OF post]] p(4) by blast
    ultimately have "cells flowdirs c' = NO_FLOW" by (rule flat_reach_flat)
    have "0 < ?a c \<and> ?a c \<le> ?a c' + 1"
      using a(6) [OF True adjacent_sym [OF c'(1)] lc(1) el c(2)] .
    then show ?thesis using True by simp
  qed
  then show ?thesis using mc mc' c'(3) Ac by auto
qed

theorem monotone_descent_witness:
  "width row_elevations = width row_flowdirs \<and> height row_elevations = height row_flowdirs \<and>
   resolve_flats_barnes (-1) row_elevations row_flowdirs empty_grid empty_grid
     = Some (Inr row_run) \<and>
   r_locals row_run = Some row_locals \<and>
   cells (r_mask row_run) (2, 0) \<noteq> -1 \<and> cells row_flowdirs (2, 0) = -1 \<and>
   adjacent (2, 0) (1, 0) \<and>
   cells (r_labels row_run) (1, 0) = cells (r_labels row_run) (2, 0) \<and>
   cells (l_towards row_locals) (1, 0) = cells (l_towards row_locals) (2, 0) - 1 \<and>
   cells (r_mask row_run) (1, 0) < cells (r_mask row_run) (2, 0)"
proof -
  have d: "width row_elevations = width row_flowdirs" "height row_elevations = height row_flowdirs"
    by (simp_all add: row_elevations_def row_flowdirs_def)
  have l: "r_locals row_run = Some row_locals" by (simp add: row_run_def)
  have c: "cells (r_mask row_run) (2, 0) \<noteq> -1" "cells row_flowdirs (2, 0) = -1"
    by (simp_all add: row_run_def row_flowdirs_def)
  have c': "adjacent (2, 0) (1, 0)"
    "cells (r_labels row_run) (1, 0) = cells (r_labels row_run) (2, 0)"
    "cells (l_towards row_locals) (1, 0) = cells (l_towards row_locals) (2, 0) - 1"
    by (simp_all add: adjacent_def row_run_def row_locals_def)
  from monotone_descent [OF d row_run_computed l c c'] d row_run_computed l c c'
  show ?thesis by simp
qed

section \<open>The cells with a mask value\<close>

text \<open>Claim C6, as amended. After a run on grids of the same extent, a cell whose mask is not
  -1 is a low-edge cell (which has a flow direction) or a flat cell (\<^verbatim>\<open>NO_FLOW\<close>), and it is
  reached from a low edge by steps to 8-neighbours in the grid that are flat and of the same
  elevation. Every other cell, so every cell with a flow direction that is not a low edge and
  every cell of a flat without an outlet, holds -1.\<close>

theorem mask_only_from_low_edges:
  fixes elevations :: "('e::ord) array2d"
  assumes dims: "width elevations = width flowdirs" "height elevations = height flowdirs"
    and run: "resolve_flats_barnes NO_FLOW elevations flowdirs fmask labels = Some (Inr out)"
    and c: "cells (r_mask out) c \<noteq> -1"
  shows "flat_reach NO_FLOW elevations flowdirs (set (r_low_edges out)) c \<and>
         (c \<in> set (r_low_edges out) \<or> cells flowdirs c = NO_FLOW)"
proof -
  have post: "run_post NO_FLOW elevations flowdirs out"
    using dims run by (rule resolve_flats_barnes_post)
  obtain loc where loc: "r_locals out = Some loc"
    using run_post_mask_early [OF post, of c] c by (cases "r_locals out") auto
  note p = run_post_locals [OF post loc]
  have "0 < cells (l_towards loc) c" using p(5) [of c] c by (auto split: if_splits)
  then have r: "flat_reach NO_FLOW elevations flowdirs (set (r_low_edges out)) c"
    using gradient_postD(5) [OF p(2)] by blast
  then have "c \<in> set (r_low_edges out) \<or> cells flowdirs c = NO_FLOW"
    by (cases rule: flat_reach.cases) auto
  then show ?thesis using r by simp
qed

theorem mask_only_from_low_edges_witness:
  "width row_elevations = width row_flowdirs \<and> height row_elevations = height row_flowdirs \<and>
   resolve_flats_barnes (-1) row_elevations row_flowdirs empty_grid empty_grid
     = Some (Inr row_run) \<and>
   cells (r_mask row_run) (2, 0) \<noteq> -1 \<and>
   flat_reach (-1) row_elevations row_flowdirs (set (r_low_edges row_run)) (2, 0) \<and>
   cells row_flowdirs (2, 0) = -1"
proof -
  have d: "width row_elevations = width row_flowdirs" "height row_elevations = height row_flowdirs"
    by (simp_all add: row_elevations_def row_flowdirs_def)
  have c: "cells (r_mask row_run) (2, 0) \<noteq> -1" "cells row_flowdirs (2, 0) = -1"
    by (simp_all add: row_run_def row_flowdirs_def)
  from mask_only_from_low_edges [OF d row_run_computed c(1)] d row_run_computed c
  show ?thesis by simp
qed

text \<open>The claim as the spec states it fails on the single row: cell 0 is not flat (it has a
  flow direction) and its mask is 0, not the sentinel.\<close>

theorem mask_at_defined_cell_counterexample:
  "resolve_flats_barnes (-1) row_elevations row_flowdirs empty_grid empty_grid
     = Some (Inr row_run) \<and>
   cells row_flowdirs (0, 0) \<noteq> -1 \<and> cells row_flowdirs (0, 0) \<noteq> no_data row_flowdirs \<and>
   cells (r_mask row_run) (0, 0) \<noteq> -1"
  unfolding row_run_computed by (simp add: row_run_def row_flowdirs_def)

section \<open>Grids of different extents\<close>

text \<open>Claim C7, as amended. The run does not check that the two grids have the same extent
  and reports no invalid input. It sizes the labels and the mask by the flow-direction grid
  and starts with \<^verbatim>\<open>find_flat_edges\<close>: whenever the flow-direction grid is no wider and no
  higher than the elevation grid, of the same extent or not (and has rows, when it has
  columns), that pass reads inside both grids and completes, and when it finds no low edge
  the run returns normally, with a mask of the extent of the flow-direction grid that is -1
  everywhere.\<close>

theorem extents_not_checked:
  fixes elevations :: "('e::ord) array2d"
  assumes "width flowdirs \<le> width elevations" "height flowdirs \<le> height elevations"
    and "width flowdirs \<le> 0 \<or> height flowdirs \<noteq> 0"
  shows "\<exists>low_edges high_edges.
           find_flat_edges NO_FLOW [] [] flowdirs elevations = Inr (low_edges, high_edges) \<and>
           (low_edges = [] \<longrightarrow>
              (\<exists>out. resolve_flats_barnes NO_FLOW elevations flowdirs fmask labels
                       = Some (Inr out) \<and>
                 r_locals out = None \<and>
                 width (r_mask out) = width flowdirs \<and> height (r_mask out) = height flowdirs \<and>
                 (\<forall>c. cells (r_mask out) c = -1)))"
proof -
  obtain low high where
    ffe: "find_flat_edges NO_FLOW [] [] flowdirs elevations = Inr (low, high)"
    using find_flat_edges_no_error [OF assms, where NO_FLOW = NO_FLOW and low = "[]"
        and high = "[]"]
    by auto
  have "\<exists>out. resolve_flats_barnes NO_FLOW elevations flowdirs fmask labels = Some (Inr out) \<and>
           r_locals out = None \<and>
           width (r_mask out) = width flowdirs \<and> height (r_mask out) = height flowdirs \<and>
           (\<forall>c. cells (r_mask out) c = -1)"
    if "low = []"
    using ffe that by (simp add: resolve_flats_barnes_def resize_init_def)
  then show ?thesis using ffe by blast
qed

theorem extents_not_checked_witness:
  "width cell_flowdirs \<le> width row_elevations \<and> height cell_flowdirs \<le> height row_elevations \<and>
   height cell_flowdirs \<noteq> 0 \<and> width cell_flowdirs \<noteq> width row_elevations \<and>
   find_flat_edges (-1) [] [] cell_flowdirs row_elevations = Inr ([], []) \<and>
   resolve_flats_barnes (-1) row_elevations cell_flowdirs empty_grid empty_grid
     = Some (Inr cell_run) \<and>
   r_locals cell_run = None \<and>
   width (r_mask cell_run) = width cell_flowdirs \<and>
   height (r_mask cell_run) = height cell_flowdirs \<and>
   (\<forall>c. cells (r_mask cell_run) c = -1)"
proof -
  have d: "width cell_flowdirs \<le> width row_elevations"
    "height cell_flowdirs \<le> height row_elevations"
    "width cell_flowdirs \<noteq> width row_elevations" "height cell_flowdirs \<noteq> 0"
    by (simp_all add: cell_flowdirs_def row_elevations_def)
  have nd: "width cell_flowdirs \<le> 0 \<or> height cell_flowdirs \<noteq> 0" using d(4) by simp
  have e: "find_flat_edges (-1) [] [] cell_flowdirs row_elevations = Inr ([], [])"
    by (simp add: find_flat_edges_def cell_flowdirs_def eval_simps)
  from extents_not_checked [OF d(1,2) nd, of "-1" empty_grid empty_grid] d e
  show ?thesis unfolding cell_run_computed e by simp
qed

text \<open>The claim as the spec states it fails: here the flow-direction grid has one cell and
  the elevation grid three, and the run returns normally, reporting that there are no
  flats.\<close>

theorem mismatched_extents_counterexample:
  "width row_elevations \<noteq> width cell_flowdirs \<and>
   resolve_flats_barnes (-1) row_elevations cell_flowdirs empty_grid empty_grid
     = Some (Inr cell_run) \<and>
   r_diagnostics cell_run = [No_Flats]"
  unfolding cell_run_computed
  by (simp add: row_elevations_def cell_flowdirs_def cell_run_def)

section \<open>The early return\<close>

text \<open>Claim C8. When \<^verbatim>\<open>find_flat_edges\<close> yields no low edge, \<^verbatim>\<open>resolve_flats_barnes\<close> returns
  at once (no later stage has run: there are no locals), with every cell of the mask at -1
  and no cell labelled, and its diagnostic is "flats without outlets" when there are high
  edges and "no flats" otherwise.\<close>

theorem no_low_edges_early_return:
  fixes elevations :: "('e::ord) array2d"
  assumes "find_flat_edges NO_FLOW [] [] flowdirs elevations = Inr ([], high_edges)"
  shows "\<exists>out. resolve_flats_barnes NO_FLOW elevations flowdirs fmask labels = Some (Inr out) \<and>
           r_locals out = None \<and>
           (\<forall>c. cells (r_mask out) c = -1) \<and> (\<forall>c. cells (r_labels out) c = -1) \<and>
           r_diagnostics out = [if high_edges \<noteq> [] then No_Outlets else No_Flats]"
  using assms by (simp add: resolve_flats_barnes_def resize_init_def)

theorem no_low_edges_early_return_witness:
  "find_flat_edges (-1) [] [] pit_flowdirs pit_elevations = Inr ([], [(0, 0)]) \<and>
   (\<exists>out. resolve_flats_barnes (-1) pit_elevations pit_flowdirs empty_grid empty_grid
            = Some (Inr out) \<and>
      r_locals out = None \<and>
      (\<forall>c. cells (r_mask out) c = -1) \<and> (\<forall>c. cells (r_labels out) c = -1) \<and>
      r_diagnostics out = [No_Outlets])"
  using no_low_edges_early_return [OF pit_find_flat_edges, of empty_grid empty_grid]
    pit_find_flat_edges
  by simp

section \<open>The indices into flat\_height\<close>

text \<open>Claim C9. On grids of the same extent a run of \<^verbatim>\<open>resolve_flats_barnes\<close> ends, and never
  in an access \<^verbatim>\<open>flat_height[labels(x,y)]\<close> out of range, which the model would report as
  \<open>BadIndex\<close>, whether in the two calls of \<^verbatim>\<open>BuildGradient\<close> or in \<^verbatim>\<open>CombineGradients\<close>.
  When the run went past the early return, \<^verbatim>\<open>flat_height\<close> has one entry per region, and
  every cell that a call of \<^verbatim>\<open>BuildGradient\<close> gave an incrementation, which are the cells
  where the index is computed, has a label from 0 up to the number of regions. The run
  returns normally unless the grid has columns and no rows (see \<open>find_flat_edges\<close>).\<close>

theorem flat_height_index_in_range:
  fixes elevations :: "('e::ord) array2d"
  assumes "width elevations = width flowdirs" "height elevations = height flowdirs"
  shows "\<exists>r. resolve_flats_barnes NO_FLOW elevations flowdirs fmask labels = Some r \<and>
           r \<noteq> Inl BadIndex \<and>
           (\<forall>out loc. r = Inr out \<and> r_locals out = Some loc \<longrightarrow>
              length (l_flat_height_towards loc) = nat (l_group_number loc) \<and>
              length (l_flat_height loc) = nat (l_group_number loc) \<and>
              (\<forall>c. 0 < cells (l_towards loc) c \<or> 0 < cells (l_away loc) c \<longrightarrow>
                 0 \<le> cells (r_labels out) c \<and> cells (r_labels out) c < l_group_number loc)) \<and>
           (width flowdirs \<le> 0 \<or> height flowdirs \<noteq> 0 \<longrightarrow> (\<exists>out. r = Inr out))"
proof (cases "width flowdirs \<le> 0 \<or> height flowdirs \<noteq> 0")
  case False
  then have "find_flat_edges NO_FLOW [] [] flowdirs elevations = Inl DivisionByZero"
    by (simp add: find_flat_edges_def)
  then have "resolve_flats_barnes NO_FLOW elevations flowdirs fmask labels
               = Some (Inl DivisionByZero)"
    by (simp add: resolve_flats_barnes_def)
  then show ?thesis using False by simp
next
  case True
  from resolve_flats_barnes_returns [OF assms True, of NO_FLOW fmask labels]
  obtain out where out:
    "resolve_flats_barnes NO_FLOW elevations flowdirs fmask labels = Some (Inr out)"
    "run_post NO_FLOW elevations flowdirs out" by blast
  have "length (l_flat_height_towards loc) = nat (l_group_number loc) \<and>
        length (l_flat_height loc) = nat (l_group_number loc) \<and>
        (\<forall>c. 0 < cells (l_towards loc) c \<or> 0 < cells (l_away loc) c \<longrightarrow>
           0 \<le> cells (r_labels out) c \<and> cells (r_labels out) c < l_group_number loc)"
    if loc: "r_locals out = Some loc" for loc
  proof -
    note p = run_post_locals [OF out(2) loc]
    have "0 \<le> cells (r_labels out) c \<and> cells (r_labels out) c < l_group_number loc"
      if "0 < cells (l_towards loc) c \<or> 0 < cells (l_away loc) c" for c
    proof -
      have "cells (r_labels out) c \<noteq> -1"
        using that gradient_postD(5) [OF p(2), of c] gradient_postD(5) [OF p(3), of c] by blast
      then show ?thesis using labelling_invD(1) [OF p(1), of c] by auto
    qed
    then show ?thesis using gradient_postD(3) [OF p(2)] gradient_postD(3) [OF p(3)] by blast
  qed
  then show ?thesis using out(1) by auto
qed

theorem flat_height_index_in_range_witness:
  "width row_elevations = width row_flowdirs \<and> height row_elevations = height row_flowdirs \<and>
   height row_flowdirs \<noteq> 0 \<and>
   resolve_flats_barnes (-1) row_elevations row_flowdirs empty_grid empty_grid
     = Some (Inr row_run) \<and>
   r_locals row_run = Some row_locals \<and>
   length (l_flat_height_towards row_locals) = nat (l_group_number row_locals) \<and>
   length (l_flat_height row_locals) = nat (l_group_number row_locals) \<and>
   0 < cells (l_towards row_locals) (2, 0) \<and>
   0 \<le> cells (r_labels row_run) (2, 0) \<and>
   cells (r_labels row_run) (2, 0) < l_group_number row_locals"
proof -
  have d: "width row_elevations = width row_flowdirs" "height row_elevations = height row_flowdirs"
    by (simp_all add: row_elevations_def row_flowdirs_def)
  have l: "r_locals row_run = Some row_locals" by (simp add: row_run_def)
  have t: "0 < cells (l_towards row_locals) (2, 0)" by (simp add: row_locals_def)
  have h: "height row_flowdirs \<noteq> 0" by (simp add: row_flowdirs_def)
  from flat_height_index_in_range [OF d, of "-1" empty_grid empty_grid] l t d h
  show ?thesis unfolding row_run_computed by auto
qed

section \<open>Termination of BuildGradient\<close>




end
